theory Spec2Isabelle
  imports Main "HOL-Library.Word" "HOL-Library.AList"
begin

section \<open>The master recovery manager of the coordinator\<close>

text \<open>
  A shallow embedding of \<^verbatim>\<open>src/MasterRecoveryManager.cc\<close>. The manager's fields are a
  record, every method and every \<^verbatim>\<open>performTask\<close> is a function from the manager's state
  to its new state, and what the code does to the outside world (log lines, calls into a
  Recovery, the membership broadcast, \<^verbatim>\<open>delete\<close>) is appended to a trace of events.
  The classes the file only uses (TabletMap, CoordinatorServerList, the tracker, Recovery,
  Task) are not among the sources; their operations are modelled from the specification
  and marked so.
\<close>

subsection \<open>Data\<close>

type_synonym ServerId = "64 word"
type_synonym RecoveryId = "64 word"

datatype TabletStatus = NORMAL | RECOVERING

type_synonym LogPosition = "64 word \<times> 64 word"

text \<open>One entry of a \<^verbatim>\<open>ProtoBuf::Tablets\<close> message, with the fields the manager reads.\<close>

record PbTablet =
  table_id :: "64 word"
  start_key_hash :: "64 word"
  end_key_hash :: "64 word"
  server_id :: "64 word"
  user_data :: "64 word"
  ctime_log_head_id :: "64 word"
  ctime_log_head_offset :: "64 word"

text \<open>
  The tablet map: entries keyed by (table id, start key hash, end key hash), each with
  its owner, its status and the log head position recorded at assignment.
\<close>

type_synonym TabletKey = "64 word \<times> 64 word \<times> 64 word"

record Tablet =
  tablet_serverId :: ServerId
  tablet_status :: TabletStatus
  tablet_ctime :: LogPosition

type_synonym TabletMap = "(TabletKey \<times> Tablet) list"

record ServerListEntry =
  entry_will :: "PbTablet list"
  entry_minOpenSegmentId :: "64 word"

text \<open>The membership delta (\<^verbatim>\<open>ProtoBuf::ServerList update\<close>) that is broadcast.\<close>

record ServerListUpdate =
  update_removed :: "ServerId list"
  update_version :: "64 word option"

record CoordinatorServerList =
  sl_entries :: "(ServerId \<times> ServerListEntry) list"
  sl_version :: "64 word"

text \<open>
  What the manager sees of a Recovery: the fields it reads. The Recovery's own progress
  (which recovery masters finished, whether all succeeded) lives in Recovery.cc.
\<close>

record Recovery =
  recoveryId :: RecoveryId
  crashedServerId :: ServerId
  will :: "PbTablet list"
  minOpenSegmentId :: "64 word"

datatype ServerChangeEvent = SERVER_ADDED | SERVER_CRASHED | SERVER_REMOVED

record ServerDetails =
  serverId :: ServerId

text \<open>
  The tracker: the buffered changes in arrival order, and for each server the slot that
  holds the Recovery using it as a recovery master (no entry: a null pointer).
\<close>

record Tracker =
  changes :: "(ServerDetails \<times> ServerChangeEvent) list"
  slots :: "(ServerId \<times> Recovery) list"

text \<open>The tasks that are put on the manager's task queue. A Recovery is itself a task.\<close>

datatype Task =
    ApplyTrackerChangesTask
  | MaybeStartRecoveryTask
  | EnqueueMasterRecoveryTask Recovery "64 word"
  | RecoveryMasterFinishedTask RecoveryId ServerId "PbTablet list" bool
  | RecoveryTask Recovery

datatype LogLevel = ERROR | WARNING | NOTICE

text \<open>
  What a method does besides changing the manager's fields: a log line (level, format
  string, the integer arguments), a test log line, the abort of \<^verbatim>\<open>DIE\<close>, and the calls
  into the classes outside this file.
\<close>

datatype Event =
    LOG LogLevel string "64 word list"
  | TEST_LOG string
  | DIE string
  | Call_modifyTablet TabletKey ServerId TabletStatus LogPosition
  | Call_recoveryMasterFinished Recovery ServerId bool
  | Call_sendMembershipUpdate ServerListUpdate
  | Delete_Recovery Recovery

text \<open>How a method ends: it returns, an exception leaves it, or the process aborts.\<close>

datatype Outcome = Returned | Threw | Died

record MasterRecoveryManager =
  serverList :: CoordinatorServerList
  tabletMap :: TabletMap
  waitingRecoveries :: "Recovery list"
  activeRecoveries :: "(RecoveryId \<times> Recovery) list"
  maxActiveRecoveries :: nat
  taskQueue :: "Task list"
  tracker :: Tracker
  doNotStartRecoveries :: bool
  nextRecoveryId :: RecoveryId
  trace :: "Event list"

text \<open>
  \<^verbatim>\<open>waitingRecoveries\<close> is a \<^verbatim>\<open>std::queue\<close> (front of the queue = head of the list),
  \<^verbatim>\<open>activeRecoveries\<close> a \<^verbatim>\<open>std::map\<close> from recovery id to Recovery, kept as an
  association list: \<^verbatim>\<open>find\<close> is \<^const>\<open>map_of\<close>, \<^verbatim>\<open>operator[] =\<close> is
  \<^const>\<open>AList.update\<close>, \<^verbatim>\<open>erase\<close> is \<^const>\<open>AList.delete\<close>, \<^verbatim>\<open>size()\<close> the length.
  \<^verbatim>\<open>nextRecoveryId\<close> is the source of fresh recovery ids of the Recovery constructor.
\<close>

definition MasterRecoveryManager_new ::
  "CoordinatorServerList \<Rightarrow> TabletMap \<Rightarrow> MasterRecoveryManager" where
  "MasterRecoveryManager_new sl tm =
     \<lparr>serverList = sl, tabletMap = tm, waitingRecoveries = [], activeRecoveries = [],
      maxActiveRecoveries = 1, taskQueue = [],
      tracker = \<lparr>changes = [], slots = []\<rparr>,
      doNotStartRecoveries = False, nextRecoveryId = 0, trace = []\<rparr>"

text \<open>The format strings of the log lines that the theorems below name.\<close>

definition msg_noOngoingRecovery :: string where
  "msg_noOngoingRecovery =
     ''Recovery master reported completing recovery %lu but there is no ongoing recovery with that id; this should never happen in RAMCloud''"

definition msg_masterFailed :: string where
  "msg_masterFailed = ''A recovery master failed to recover its partition''"

definition msg_entryMissing :: string where
  "msg_entryMissing = ''Entry wasn't in the list anymore; we need to handle this sensibly''"

definition emit :: "Event \<Rightarrow> MasterRecoveryManager \<Rightarrow> MasterRecoveryManager" where
  "emit e mgr = mgr\<lparr>trace := trace mgr @ [e]\<rparr>"

subsection \<open>The classes outside this file\<close>

text \<open>
  Modelled from the spec: \<^verbatim>\<open>TabletMap::setStatusForServer\<close> (TabletMap.cc is not among the
  sources) "atomically marks every tablet owned by serverId with status, returns the
  (possibly empty) list affected".
\<close>

definition setStatusForServer ::
  "ServerId \<Rightarrow> TabletStatus \<Rightarrow> TabletMap \<Rightarrow> TabletMap \<times> (TabletKey \<times> Tablet) list" where
  "setStatusForServer sid st tm =
     (let tm' = map (\<lambda>(k, t). if tablet_serverId t = sid
                               then (k, t\<lparr>tablet_status := st\<rparr>) else (k, t)) tm
      in (tm', filter (\<lambda>(k, t). tablet_serverId t = sid) tm'))"

text \<open>
  Modelled from the spec: \<^verbatim>\<open>TabletMap::modifyTablet\<close> (TabletMap.cc is not among the
  sources) sets owner, status and log head position of the entry with the given key and
  "fails if the exact key triple is absent" (\<^const>\<open>None\<close>: the exception).
\<close>

definition modifyTablet ::
  "TabletKey \<Rightarrow> ServerId \<Rightarrow> TabletStatus \<Rightarrow> LogPosition \<Rightarrow> TabletMap \<Rightarrow> TabletMap option" where
  "modifyTablet k owner st pos tm =
     (case map_of tm k of
        None \<Rightarrow> None
      | Some t \<Rightarrow> Some (AList.update k
          \<lparr>tablet_serverId = owner, tablet_status = st, tablet_ctime = pos\<rparr> tm))"

text \<open>
  Modelled from the spec: \<^verbatim>\<open>CoordinatorServerList::remove\<close> and \<^verbatim>\<open>incrementVersion\<close>
  (CoordinatorServerList.cc is not among the sources) "compose a membership delta":
  the first takes the server out of the list and notes it in the update, the second
  bumps the list's version and notes the new version in the update.
\<close>

definition ServerList_remove ::
  "ServerId \<Rightarrow> CoordinatorServerList \<times> ServerListUpdate \<Rightarrow>
   CoordinatorServerList \<times> ServerListUpdate" where
  "ServerList_remove sid = (\<lambda>(sl, update).
     (sl\<lparr>sl_entries := AList.delete sid (sl_entries sl)\<rparr>,
      update\<lparr>update_removed := update_removed update @ [sid]\<rparr>))"

definition incrementVersion ::
  "CoordinatorServerList \<times> ServerListUpdate \<Rightarrow> CoordinatorServerList \<times> ServerListUpdate" where
  "incrementVersion = (\<lambda>(sl, update).
     (sl\<lparr>sl_version := sl_version sl + 1\<rparr>,
      update\<lparr>update_version := Some (sl_version sl + 1)\<rparr>))"

text \<open>
  Modelled from the spec: \<^verbatim>\<open>getChange\<close> of the tracker (ServerTracker.h is not among the
  sources) "drains one buffered (ServerDetails, event)", in the order the server list
  emitted them, and returns false (\<^const>\<open>None\<close>) when nothing is buffered.
\<close>

definition getChange ::
  "Tracker \<Rightarrow> ((ServerDetails \<times> ServerChangeEvent) \<times> Tracker) option" where
  "getChange t = (case changes t of
                    [] \<Rightarrow> None
                  | c # rest \<Rightarrow> Some (c, t\<lparr>changes := rest\<rparr>))"

text \<open>
  Modelled from the spec: \<^verbatim>\<open>Task::schedule\<close> (TaskQueue.cc is not among the sources)
  "appends (idempotent for a given task instance while it remains scheduled)".
  \<open>schedule\<close> is the call on an instance that may be on the queue already,
  \<open>scheduleNew\<close> the call on an instance that was just constructed.
\<close>

definition schedule :: "Task \<Rightarrow> Task list \<Rightarrow> Task list" where
  "schedule t q = (if t \<in> set q then q else q @ [t])"

definition scheduleNew :: "Task \<Rightarrow> Task list \<Rightarrow> Task list" where
  "scheduleNew t q = q @ [t]"

text \<open>
  Modelled from the spec: the constructor of Recovery (Recovery.cc is not among the
  sources) "assigns a unique recoveryId", a "unique monotonic identifier assigned at
  construction"; the other fields are the constructor's arguments.
\<close>

definition Recovery_new ::
  "ServerId \<Rightarrow> PbTablet list \<Rightarrow> 64 word \<Rightarrow> MasterRecoveryManager \<Rightarrow>
   Recovery \<times> MasterRecoveryManager" where
  "Recovery_new crashed w minOpen mgr =
     (\<lparr>recoveryId = nextRecoveryId mgr, crashedServerId = crashed, will = w,
       minOpenSegmentId = minOpen\<rparr>,
      mgr\<lparr>nextRecoveryId := nextRecoveryId mgr + 1\<rparr>)"

text \<open>
  Modelled from the spec: \<^verbatim>\<open>Recovery::recoveryMasterFinished\<close> (Recovery.cc is not among
  the sources) "asynchronously records a participant's verdict", and "the back-pointer is
  cleared as part of the Recovery's handling". The call is recorded in the trace and the
  tracker slot of the recovery master is cleared; the callbacks into the manager
  (\<^verbatim>\<open>recoveryFinished\<close>, \<^verbatim>\<open>destroyAndFreeRecovery\<close>) come later, from the Recovery's own task.
\<close>

definition Recovery_recoveryMasterFinished ::
  "Recovery \<Rightarrow> ServerId \<Rightarrow> bool \<Rightarrow> MasterRecoveryManager \<Rightarrow> MasterRecoveryManager" where
  "Recovery_recoveryMasterFinished recovery recoveryMasterId successful mgr =
     emit (Call_recoveryMasterFinished recovery recoveryMasterId successful)
       (mgr\<lparr>tracker := (tracker mgr)\<lparr>slots :=
          AList.delete recoveryMasterId (slots (tracker mgr))\<rparr>\<rparr>)"

subsection \<open>The tasks\<close>

text \<open>
  \<^verbatim>\<open>ApplyTrackerChangesTask::performTask\<close>: the loop over \<^verbatim>\<open>getChange\<close>, with its
  \<^verbatim>\<open>break\<close> at a crashed or removed server whose slot holds no Recovery.
\<close>

function ApplyTrackerChangesTask_performTask ::
  "MasterRecoveryManager \<Rightarrow> MasterRecoveryManager" where
  "ApplyTrackerChangesTask_performTask mgr =
     (case getChange (tracker mgr) of
        None \<Rightarrow> mgr
      | Some ((server, event), t') \<Rightarrow>
          (let mgr1 = mgr\<lparr>tracker := t'\<rparr> in
           if event = SERVER_CRASHED \<or> event = SERVER_REMOVED then
             (case map_of (slots (tracker mgr1)) (serverId server) of
                None \<Rightarrow> mgr1
              | Some recovery \<Rightarrow>
                  ApplyTrackerChangesTask_performTask
                    (Recovery_recoveryMasterFinished recovery (serverId server) False mgr1))
           else ApplyTrackerChangesTask_performTask mgr1))"
  by pat_completeness auto
termination
  by (relation "measure (\<lambda>mgr. length (changes (tracker mgr)))")
     (auto simp: getChange_def Recovery_recoveryMasterFinished_def emit_def
           split: list.splits)

text \<open>\<^verbatim>\<open>MasterRecoveryManager::trackerChangesEnqueued\<close>: the constructor of the task
  schedules it, and the method schedules the same instance once more.\<close>

definition trackerChangesEnqueued :: "MasterRecoveryManager \<Rightarrow> MasterRecoveryManager" where
  "trackerChangesEnqueued mgr =
     mgr\<lparr>taskQueue := schedule ApplyTrackerChangesTask
                         (scheduleNew ApplyTrackerChangesTask (taskQueue mgr))\<rparr>"

text \<open>\<^verbatim>\<open>MasterRecoveryManager::destroyAndFreeRecovery\<close>.\<close>

definition destroyAndFreeRecovery ::
  "Recovery \<Rightarrow> MasterRecoveryManager \<Rightarrow> MasterRecoveryManager" where
  "destroyAndFreeRecovery recovery mgr =
     (let mgr1 = mgr\<lparr>activeRecoveries :=
                    AList.delete (recoveryId recovery) (activeRecoveries mgr)\<rparr>;
          mgr2 = emit (LOG NOTICE ''Recovery of server %lu done (now %lu active recoveries)''
                    [crashedServerId recovery, of_nat (length (activeRecoveries mgr1))]) mgr1
      in emit (Delete_Recovery recovery) mgr2)"

text \<open>
  \<^verbatim>\<open>MaybeStartRecoveryTask::performTask\<close>. The inner \<^verbatim>\<open>foreach\<close> with its \<^verbatim>\<open>break\<close>:
\<close>

fun serverAlreadyRecovering :: "(RecoveryId \<times> Recovery) list \<Rightarrow> Recovery \<Rightarrow> bool" where
  "serverAlreadyRecovering [] recovery = False"
| "serverAlreadyRecovering (other # rest) recovery =
     (if crashedServerId (snd other) = crashedServerId recovery then True
      else serverAlreadyRecovering rest recovery)"

text \<open>The condition of the \<^verbatim>\<open>while\<close> loop.\<close>

definition maybeStart_cond :: "MasterRecoveryManager \<Rightarrow> bool" where
  "maybeStart_cond mgr \<longleftrightarrow>
     waitingRecoveries mgr \<noteq> [] \<and> length (activeRecoveries mgr) < maxActiveRecoveries mgr"

text \<open>
  The body of the \<^verbatim>\<open>while\<close> loop, on the manager and the local vector
  \<^verbatim>\<open>alreadyActive\<close>. The loop runs it only when the queue is not empty; on an empty queue
  (where \<^verbatim>\<open>front()\<close> is undefined in C++) the model leaves the state as it is.
\<close>

definition maybeStart_body ::
  "MasterRecoveryManager \<times> Recovery list \<Rightarrow> MasterRecoveryManager \<times> Recovery list" where
  "maybeStart_body = (\<lambda>(mgr, alreadyActive).
     case waitingRecoveries mgr of
       [] \<Rightarrow> (mgr, alreadyActive)
     | recovery # rest \<Rightarrow>
         if serverAlreadyRecovering (activeRecoveries mgr) recovery then
           (emit (LOG NOTICE
               ''Delaying start of recovery of server %lu; another recovery is active for the same ServerId''
               [crashedServerId recovery])
              (mgr\<lparr>waitingRecoveries := rest\<rparr>),
            alreadyActive @ [recovery])
         else
           (let mgr1 = mgr\<lparr>taskQueue := schedule (RecoveryTask recovery) (taskQueue mgr)\<rparr>;
                mgr2 = mgr1\<lparr>activeRecoveries :=
                         AList.update (recoveryId recovery) recovery (activeRecoveries mgr1)\<rparr>;
                mgr3 = mgr2\<lparr>waitingRecoveries := rest\<rparr>
            in (emit (LOG NOTICE ''Starting recovery of server %lu (now %lu active recoveries)''
                  [crashedServerId recovery, of_nat (length (activeRecoveries mgr3))]) mgr3,
                alreadyActive)))"

function maybeStart_loop ::
  "MasterRecoveryManager \<times> Recovery list \<Rightarrow> MasterRecoveryManager \<times> Recovery list" where
  "maybeStart_loop st =
     (if maybeStart_cond (fst st) then maybeStart_loop (maybeStart_body st) else st)"
  by pat_completeness auto
termination
  by (relation "measure (\<lambda>st. length (waitingRecoveries (fst st)))")
     (auto simp: maybeStart_cond_def maybeStart_body_def emit_def Let_def split: list.splits)

definition MaybeStartRecoveryTask_performTask ::
  "MasterRecoveryManager \<Rightarrow> MasterRecoveryManager" where
  "MaybeStartRecoveryTask_performTask mgr =
     (case maybeStart_loop (mgr, []) of (mgr1, alreadyActive) \<Rightarrow>
        (let mgr2 = mgr1\<lparr>waitingRecoveries := waitingRecoveries mgr1 @ alreadyActive\<rparr>
         in if length (waitingRecoveries mgr2) > 0
            then emit (LOG NOTICE ''%lu recoveries blocked waiting for other recoveries''
                   [of_nat (length (waitingRecoveries mgr2))]) mgr2
            else mgr2))"

text \<open>
  \<^verbatim>\<open>EnqueueMasterRecoveryTask\<close>: the constructor allocates the Recovery, \<^verbatim>\<open>performTask\<close>
  puts it on the waiting queue and schedules an admission task.
\<close>

definition EnqueueMasterRecoveryTask_new ::
  "ServerId \<Rightarrow> PbTablet list \<Rightarrow> 64 word \<Rightarrow> MasterRecoveryManager \<Rightarrow>
   Task \<times> MasterRecoveryManager" where
  "EnqueueMasterRecoveryTask_new crashed w minOpen mgr =
     (case Recovery_new crashed w minOpen mgr of
        (recovery, mgr') \<Rightarrow> (EnqueueMasterRecoveryTask recovery minOpen, mgr'))"

definition EnqueueMasterRecoveryTask_performTask ::
  "Recovery \<Rightarrow> MasterRecoveryManager \<Rightarrow> MasterRecoveryManager" where
  "EnqueueMasterRecoveryTask_performTask recovery mgr =
     (let mgr1 = mgr\<lparr>waitingRecoveries := waitingRecoveries mgr @ [recovery]\<rparr>
      in mgr1\<lparr>taskQueue := scheduleNew MaybeStartRecoveryTask (taskQueue mgr1)\<rparr>)"

text \<open>
  \<^verbatim>\<open>RecoveryMasterFinishedTask::performTask\<close>. First the \<^verbatim>\<open>foreach\<close> over the recovered
  tablets, with the \<^verbatim>\<open>DIE\<close> in its \<^verbatim>\<open>catch\<close>:
\<close>

definition tabletKey :: "PbTablet \<Rightarrow> TabletKey" where
  "tabletKey tablet = (table_id tablet, start_key_hash tablet, end_key_hash tablet)"

fun modifyTablets ::
  "PbTablet list \<Rightarrow> MasterRecoveryManager \<Rightarrow> Outcome \<times> MasterRecoveryManager" where
  "modifyTablets [] mgr = (Returned, mgr)"
| "modifyTablets (tablet # rest) mgr =
     (let mgr1 = emit (Call_modifyTablet (tabletKey tablet) (server_id tablet) NORMAL
                   (ctime_log_head_id tablet, ctime_log_head_offset tablet)) mgr
      in case modifyTablet (tabletKey tablet) (server_id tablet) NORMAL
                (ctime_log_head_id tablet, ctime_log_head_offset tablet) (tabletMap mgr1) of
           None \<Rightarrow>
             (Died, emit (DIE msg_entryMissing) mgr1)
         | Some tm' \<Rightarrow> modifyTablets rest (mgr1\<lparr>tabletMap := tm'\<rparr>))"

definition RecoveryMasterFinishedTask_performTask ::
  "RecoveryId \<Rightarrow> ServerId \<Rightarrow> PbTablet list \<Rightarrow> bool \<Rightarrow> MasterRecoveryManager \<Rightarrow>
   Outcome \<times> MasterRecoveryManager" where
  "RecoveryMasterFinishedTask_performTask rid recoveryMasterId recoveredTablets successful mgr =
     (case map_of (activeRecoveries mgr) rid of
        None \<Rightarrow>
          (Returned, emit (LOG ERROR msg_noOngoingRecovery [rid]) mgr)
      | Some recovery \<Rightarrow>
          (case (if successful then modifyTablets recoveredTablets mgr
                 else (Returned, emit (LOG WARNING msg_masterFailed []) mgr)) of
             (Returned, mgr1) \<Rightarrow>
               (Returned, Recovery_recoveryMasterFinished recovery recoveryMasterId successful mgr1)
           | (outcome, mgr1) \<Rightarrow> (outcome, mgr1)))"

text \<open>\<^verbatim>\<open>MasterRecoveryManager::recoveryMasterFinished\<close>, the entry point of the RPC.\<close>

definition recoveryMasterFinished ::
  "RecoveryId \<Rightarrow> ServerId \<Rightarrow> PbTablet list \<Rightarrow> bool \<Rightarrow> MasterRecoveryManager \<Rightarrow>
   MasterRecoveryManager" where
  "recoveryMasterFinished rid recoveryMasterId recoveredTablets successful mgr =
     (let mgr1 = emit (LOG NOTICE ''called by masterId %lu with %u tablets''
                   [recoveryMasterId, of_nat (length recoveredTablets)]) mgr;
          mgr2 = emit (TEST_LOG ''Recovered tablets'') mgr1;
          mgr3 = emit (TEST_LOG ''%s'') mgr2
      in mgr3\<lparr>taskQueue := scheduleNew
           (RecoveryMasterFinishedTask rid recoveryMasterId recoveredTablets successful)
           (taskQueue mgr3)\<rparr>)"

text \<open>
  \<^verbatim>\<open>MasterRecoveryManager::recoveryFinished\<close>. \<^verbatim>\<open>wasCompletelySuccessful()\<close> is a method
  of Recovery (Recovery.cc is not among the sources); its result is a parameter.
\<close>

definition recoveryFinished ::
  "Recovery \<Rightarrow> bool \<Rightarrow> MasterRecoveryManager \<Rightarrow> MasterRecoveryManager" where
  "recoveryFinished recovery wasCompletelySuccessful mgr =
     (let mgr0 = emit (LOG NOTICE ''Recovery completed for master %lu''
                   [crashedServerId recovery]) mgr
      in if wasCompletelySuccessful then
           (case incrementVersion (ServerList_remove (crashedServerId recovery)
                   (serverList mgr0, \<lparr>update_removed = [], update_version = None\<rparr>)) of
              (sl', update) \<Rightarrow>
                (let mgr1 = emit (Call_sendMembershipUpdate update) (mgr0\<lparr>serverList := sl'\<rparr>)
                 in mgr1\<lparr>taskQueue := scheduleNew MaybeStartRecoveryTask (taskQueue mgr1)\<rparr>))
         else
           (let mgr1 = emit (LOG NOTICE
                   ''Recovery of server %lu failed to recover some tablets, rescheduling another recovery''
                   [crashedServerId recovery]) mgr0
            in case EnqueueMasterRecoveryTask_new (crashedServerId recovery) (will recovery)
                      (minOpenSegmentId recovery) mgr1 of
                 (task, mgr2) \<Rightarrow> mgr2\<lparr>taskQueue := scheduleNew task (taskQueue mgr2)\<rparr>))"

text \<open>
  \<^verbatim>\<open>MasterRecoveryManager::restartMasterRecovery\<close>. The crashed server "*must* be in
  #serverList"; indexing the list with an id it does not hold throws.
\<close>

definition restartMasterRecovery ::
  "ServerId \<Rightarrow> MasterRecoveryManager \<Rightarrow> Outcome \<times> MasterRecoveryManager" where
  "restartMasterRecovery crashed mgr =
     (case map_of (sl_entries (serverList mgr)) crashed of
        None \<Rightarrow> (Threw, mgr)
      | Some server \<Rightarrow>
          (let mgr1 = emit (LOG NOTICE ''Scheduling recovery of master %lu'' [crashed]) mgr
           in if doNotStartRecoveries mgr1 then
                (Returned, emit (TEST_LOG ''Recovery will: %s'')
                             (emit (TEST_LOG ''Recovery crashedServerId: %lu'') mgr1))
              else
                (case EnqueueMasterRecoveryTask_new crashed (entry_will server)
                        (entry_minOpenSegmentId server) mgr1 of
                   (task, mgr2) \<Rightarrow>
                     (Returned, mgr2\<lparr>taskQueue := scheduleNew task (taskQueue mgr2)\<rparr>))))"

text \<open>\<^verbatim>\<open>MasterRecoveryManager::startMasterRecovery\<close>.\<close>

definition startMasterRecovery ::
  "ServerId \<Rightarrow> MasterRecoveryManager \<Rightarrow> Outcome \<times> MasterRecoveryManager" where
  "startMasterRecovery crashed mgr =
     (case setStatusForServer crashed RECOVERING (tabletMap mgr) of
        (tm', tablets) \<Rightarrow>
          (let mgr1 = mgr\<lparr>tabletMap := tm'\<rparr>
           in if tablets = [] then
                (Returned, emit (LOG NOTICE ''Server %lu crashed, but it had no tablets''
                                   [crashed]) mgr1)
              else restartMasterRecovery crashed mgr1))"

subsection \<open>The loops, step by step\<close>

text \<open>
  The recursion equations of the two loops are unfolded by hand where they are needed.
\<close>

declare maybeStart_loop.simps [simp del]

declare ApplyTrackerChangesTask_performTask.simps [simp del]

text \<open>
  The state of the admission loop after \<open>i\<close> runs of its body, started on the manager
  with an empty \<^verbatim>\<open>alreadyActive\<close>.
\<close>

definition maybeStart_state ::
  "MasterRecoveryManager \<Rightarrow> nat \<Rightarrow> MasterRecoveryManager \<times> Recovery list" where
  "maybeStart_state mgr i = (maybeStart_body ^^ i) (mgr, [])"

text \<open>
  The manager after the ApplyTrackerChanges task has handled the first \<open>i\<close> buffered
  changes: the task run on the buffer cut off after them.
\<close>

definition changesApplied :: "MasterRecoveryManager \<Rightarrow> nat \<Rightarrow> MasterRecoveryManager" where
  "changesApplied mgr i =
     ApplyTrackerChangesTask_performTask
       (mgr\<lparr>tracker := (tracker mgr)\<lparr>changes := take i (changes (tracker mgr))\<rparr>\<rparr>)"

text \<open>
  Recovery ids are unique (the constructor of Recovery assigns them so): no two waiting
  recoveries share an id, and no waiting recovery has the id of an active one.
\<close>

definition recoveryIds_unique :: "MasterRecoveryManager \<Rightarrow> bool" where
  "recoveryIds_unique mgr \<longleftrightarrow>
     distinct (map recoveryId (waitingRecoveries mgr)) \<and>
     list_all (\<lambda>r. map_of (activeRecoveries mgr) (recoveryId r) = None) (waitingRecoveries mgr)"

subsection \<open>Runs of the manager\<close>

text \<open>
  Everything that changes the manager's state: the public methods, the two callbacks a
  Recovery makes from its own task, and the four tasks of this file. The last operation
  stands for what the rest of the coordinator does between them: the task queue hands
  out and takes tasks, the server list and the tablet map change, the tracker buffers
  changes and Recoveries set its slots, a test sets \<^verbatim>\<open>doNotStartRecoveries\<close>. A run is any
  sequence of operations, so a state "between task executions" is the state after a run.
\<close>

datatype Operation =
    Do_startMasterRecovery ServerId
  | Do_recoveryMasterFinished RecoveryId ServerId "PbTablet list" bool
  | Do_trackerChangesEnqueued
  | Do_recoveryFinished Recovery bool
  | Do_destroyAndFreeRecovery Recovery
  | Run_ApplyTrackerChanges
  | Run_MaybeStartRecovery
  | Run_EnqueueMasterRecovery Recovery
  | Run_RecoveryMasterFinished RecoveryId ServerId "PbTablet list" bool
  | Environment CoordinatorServerList TabletMap "Task list" Tracker bool

fun perform :: "Operation \<Rightarrow> MasterRecoveryManager \<Rightarrow> MasterRecoveryManager" where
  "perform (Do_startMasterRecovery crashed) mgr = snd (startMasterRecovery crashed mgr)"
| "perform (Do_recoveryMasterFinished rid recoveryMasterId recoveredTablets successful) mgr =
     recoveryMasterFinished rid recoveryMasterId recoveredTablets successful mgr"
| "perform Do_trackerChangesEnqueued mgr = trackerChangesEnqueued mgr"
| "perform (Do_recoveryFinished recovery wasCompletelySuccessful) mgr =
     recoveryFinished recovery wasCompletelySuccessful mgr"
| "perform (Do_destroyAndFreeRecovery recovery) mgr = destroyAndFreeRecovery recovery mgr"
| "perform Run_ApplyTrackerChanges mgr = ApplyTrackerChangesTask_performTask mgr"
| "perform Run_MaybeStartRecovery mgr = MaybeStartRecoveryTask_performTask mgr"
| "perform (Run_EnqueueMasterRecovery recovery) mgr =
     EnqueueMasterRecoveryTask_performTask recovery mgr"
| "perform (Run_RecoveryMasterFinished rid recoveryMasterId recoveredTablets successful) mgr =
     snd (RecoveryMasterFinishedTask_performTask rid recoveryMasterId recoveredTablets
            successful mgr)"
| "perform (Environment sl tm q t d) mgr =
     mgr\<lparr>serverList := sl, tabletMap := tm, taskQueue := q, tracker := t,
          doNotStartRecoveries := d\<rparr>"

definition run :: "Operation list \<Rightarrow> MasterRecoveryManager \<Rightarrow> MasterRecoveryManager" where
  "run ops mgr = foldl (\<lambda>m op. perform op m) mgr ops"

text \<open>A new manager with its cap set to \<open>cap\<close>, before it is started.\<close>

definition configured ::
  "nat \<Rightarrow> CoordinatorServerList \<Rightarrow> TabletMap \<Rightarrow> MasterRecoveryManager" where
  "configured cap sl tm = (MasterRecoveryManager_new sl tm)\<lparr>maxActiveRecoveries := cap\<rparr>"

text \<open>The active recoveries of one crashed server.\<close>

definition activeFor :: "MasterRecoveryManager \<Rightarrow> ServerId \<Rightarrow> (RecoveryId \<times> Recovery) list" where
  "activeFor mgr c = filter (\<lambda>e. crashedServerId (snd e) = c) (activeRecoveries mgr)"

subsection \<open>Concrete states\<close>

text \<open>Small states on which the theorems below are exercised.\<close>

definition example_recA :: Recovery where
  "example_recA = \<lparr>recoveryId = 1, crashedServerId = 10, will = [], minOpenSegmentId = 4\<rparr>"

definition example_tabletMap :: TabletMap where
  "example_tabletMap =
     [((1, 0, 99), \<lparr>tablet_serverId = 10, tablet_status = NORMAL, tablet_ctime = (0, 0)\<rparr>),
      ((1, 100, 199), \<lparr>tablet_serverId = 11, tablet_status = NORMAL, tablet_ctime = (0, 0)\<rparr>)]"

definition example_serverList :: CoordinatorServerList where
  "example_serverList =
     \<lparr>sl_entries = [(10, \<lparr>entry_will = [], entry_minOpenSegmentId = 4\<rparr>)], sl_version = 7\<rparr>"

definition example_mgr :: MasterRecoveryManager where
  "example_mgr = MasterRecoveryManager_new example_serverList example_tabletMap"

definition example_mgr_active :: MasterRecoveryManager where
  "example_mgr_active = example_mgr\<lparr>activeRecoveries := [(1, example_recA)]\<rparr>"

definition example_recovered :: PbTablet where
  "example_recovered =
     \<lparr>table_id = 7, start_key_hash = 100, end_key_hash = 199, server_id = 11, user_data = 0,
      ctime_log_head_id = 3, ctime_log_head_offset = 8\<rparr>"

definition example_mgr_recovering :: MasterRecoveryManager where
  "example_mgr_recovering =
     example_mgr_active\<lparr>tabletMap :=
       [((7, 100, 199),
         \<lparr>tablet_serverId = 10, tablet_status = RECOVERING, tablet_ctime = (0, 0)\<rparr>),
        ((7, 200, 299),
         \<lparr>tablet_serverId = 10, tablet_status = RECOVERING, tablet_ctime = (0, 0)\<rparr>)]\<rparr>"

definition example_recB :: Recovery where
  "example_recB = \<lparr>recoveryId = 2, crashedServerId = 10, will = [], minOpenSegmentId = 4\<rparr>"

definition example_recC :: Recovery where
  "example_recC = \<lparr>recoveryId = 3, crashedServerId = 20, will = [], minOpenSegmentId = 0\<rparr>"

definition example_recD :: Recovery where
  "example_recD = \<lparr>recoveryId = 4, crashedServerId = 30, will = [], minOpenSegmentId = 0\<rparr>"




definition example_ops :: "Operation list" where
  "example_ops =
     [Run_EnqueueMasterRecovery example_recA, Run_EnqueueMasterRecovery example_recB,
      Run_EnqueueMasterRecovery example_recC, Run_EnqueueMasterRecovery example_recD,
      Run_MaybeStartRecovery]"

definition example_mgr_blocked :: MasterRecoveryManager where
  "example_mgr_blocked =
     example_mgr\<lparr>activeRecoveries := [(1, example_recA)], waitingRecoveries := [example_recB],
                 maxActiveRecoveries := 2\<rparr>"

definition example_retry :: Recovery where
  "example_retry = \<lparr>recoveryId = 0, crashedServerId = 10, will = [], minOpenSegmentId = 4\<rparr>"

definition example_mgr_between :: MasterRecoveryManager where
  "example_mgr_between =
     example_mgr\<lparr>activeRecoveries := [(1, example_recA), (3, example_recC)],
                 waitingRecoveries := [example_retry], maxActiveRecoveries := 3\<rparr>"

definition example_mgr_tracker :: MasterRecoveryManager where
  "example_mgr_tracker =
     example_mgr\<lparr>tracker :=
       \<lparr>changes = [(\<lparr>serverId = 11\<rparr>, SERVER_ADDED), (\<lparr>serverId = 12\<rparr>, SERVER_CRASHED),
                   (\<lparr>serverId = 14\<rparr>, SERVER_REMOVED), (\<lparr>serverId = 13\<rparr>, SERVER_CRASHED),
                   (\<lparr>serverId = 12\<rparr>, SERVER_REMOVED), (\<lparr>serverId = 15\<rparr>, SERVER_CRASHED)],
        slots = [(12, example_recA), (14, example_recC), (15, example_recD)]\<rparr>\<rparr>"

section \<open>Properties\<close>

subsection \<open>Completion reports\<close>

text \<open>
  C6. A RecoveryMasterFinished task whose recovery id is not in \<^verbatim>\<open>activeRecoveries\<close>
  returns normally, and the state it leaves is the state it found with one error-level
  log line added: waiting queue, active set, tablet map, server list, tracker, task queue
  are unchanged and no Recovery is called or freed, whatever \<^verbatim>\<open>successful\<close> and
  \<^verbatim>\<open>recoveredTablets\<close> are.
\<close>

theorem RecoveryMasterFinished_unknown_recovery:
  assumes "map_of (activeRecoveries mgr) rid = None"
  shows "RecoveryMasterFinishedTask_performTask rid recoveryMasterId recoveredTablets successful mgr
         = (Returned, mgr\<lparr>trace := trace mgr @ [LOG ERROR msg_noOngoingRecovery [rid]]\<rparr>)"
  using assms by (simp add: RecoveryMasterFinishedTask_performTask_def emit_def)

theorem RecoveryMasterFinished_unknown_recovery_witness:
  "map_of (activeRecoveries example_mgr) 5 = None \<and>
   RecoveryMasterFinishedTask_performTask 5 11 [] True example_mgr
     = (Returned, example_mgr\<lparr>trace := [LOG ERROR msg_noOngoingRecovery [5]]\<rparr>)"
  using RecoveryMasterFinished_unknown_recovery [of example_mgr 5 11 "[]" True]
  by (simp add: example_mgr_def MasterRecoveryManager_new_def)

text \<open>
  C5. A RecoveryMasterFinished task with \<^verbatim>\<open>successful = false\<close> whose recovery id is in
  \<^verbatim>\<open>activeRecoveries\<close> leaves the tablet map as it is, logs one warning, and calls
  \<^verbatim>\<open>recoveryMasterFinished(recoveryMasterId, false)\<close> on the Recovery found under that id.
\<close>

theorem RecoveryMasterFinished_unsuccessful:
  assumes "map_of (activeRecoveries mgr) rid = Some recovery"
  shows "fst (RecoveryMasterFinishedTask_performTask rid recoveryMasterId recoveredTablets False mgr)
           = Returned
       \<and> tabletMap (snd (RecoveryMasterFinishedTask_performTask rid recoveryMasterId
                           recoveredTablets False mgr)) = tabletMap mgr
       \<and> trace (snd (RecoveryMasterFinishedTask_performTask rid recoveryMasterId
                           recoveredTablets False mgr))
           = trace mgr @ [LOG WARNING msg_masterFailed [],
                          Call_recoveryMasterFinished recovery recoveryMasterId False]"
  using assms
  by (simp add: RecoveryMasterFinishedTask_performTask_def emit_def
                Recovery_recoveryMasterFinished_def)

theorem RecoveryMasterFinished_unsuccessful_witness:
  "map_of (activeRecoveries (example_mgr\<lparr>activeRecoveries := [(1, example_recA)]\<rparr>)) 1
     = Some example_recA
   \<and> fst (RecoveryMasterFinishedTask_performTask 1 11 [] False
            (example_mgr\<lparr>activeRecoveries := [(1, example_recA)]\<rparr>)) = Returned
   \<and> tabletMap (snd (RecoveryMasterFinishedTask_performTask 1 11 [] False
            (example_mgr\<lparr>activeRecoveries := [(1, example_recA)]\<rparr>))) = example_tabletMap
   \<and> trace (snd (RecoveryMasterFinishedTask_performTask 1 11 [] False
            (example_mgr\<lparr>activeRecoveries := [(1, example_recA)]\<rparr>)))
       = [LOG WARNING msg_masterFailed [], Call_recoveryMasterFinished example_recA 11 False]"
  using RecoveryMasterFinished_unsuccessful
          [of "example_mgr\<lparr>activeRecoveries := [(1, example_recA)]\<rparr>" 1 example_recA 11 "[]"]
  by (simp add: example_mgr_def MasterRecoveryManager_new_def)

subsection \<open>Starting a recovery while recoveries are switched off\<close>

lemma setStatusForServer_fst:
  "fst (setStatusForServer sid st tm)
     = map (\<lambda>(k, t). (k, if tablet_serverId t = sid then t\<lparr>tablet_status := st\<rparr> else t)) tm"
  by (auto simp: setStatusForServer_def Let_def)

lemma setStatusForServer_none_affected:
  "snd (setStatusForServer sid st tm) = [] \<longleftrightarrow> \<not> list_ex (\<lambda>(k, t). tablet_serverId t = sid) tm"
  by (auto simp: setStatusForServer_def Let_def filter_empty_conv list_ex_iff split: prod.splits)
     force

lemma restartMasterRecovery_doNotStart:
  assumes "doNotStartRecoveries mgr"
  shows "tabletMap (snd (restartMasterRecovery crashed mgr)) = tabletMap mgr"
    "taskQueue (snd (restartMasterRecovery crashed mgr)) = taskQueue mgr"
    "waitingRecoveries (snd (restartMasterRecovery crashed mgr)) = waitingRecoveries mgr"
    "nextRecoveryId (snd (restartMasterRecovery crashed mgr)) = nextRecoveryId mgr"
    "map_of (sl_entries (serverList mgr)) crashed \<noteq> None \<Longrightarrow>
       trace (snd (restartMasterRecovery crashed mgr))
         = trace mgr @ [LOG NOTICE ''Scheduling recovery of master %lu'' [crashed],
                        TEST_LOG ''Recovery crashedServerId: %lu'',
                        TEST_LOG ''Recovery will: %s'']"
  using assms
  by (auto simp: restartMasterRecovery_def emit_def Let_def split: option.splits)

text \<open>
  C10. When \<^verbatim>\<open>startMasterRecovery\<close> is called with \<^verbatim>\<open>doNotStartRecoveries\<close> set for a
  server that owns a tablet, the tablet map is the old one with every tablet of that
  server marked RECOVERING, and nothing is enqueued: task queue and waiting queue are
  unchanged and no Recovery is constructed. The trace shows that the flag was consulted
  in \<^verbatim>\<open>restartMasterRecovery\<close>, after the tablet map was changed.
\<close>

theorem startMasterRecovery_doNotStartRecoveries:
  assumes "doNotStartRecoveries mgr"
    and "list_ex (\<lambda>(k, t). tablet_serverId t = crashed) (tabletMap mgr)"
  shows "tabletMap (snd (startMasterRecovery crashed mgr))
           = map (\<lambda>(k, t). (k, if tablet_serverId t = crashed
                                then t\<lparr>tablet_status := RECOVERING\<rparr> else t)) (tabletMap mgr)
       \<and> list_all (\<lambda>(k, t). tablet_serverId t = crashed \<longrightarrow> tablet_status t = RECOVERING)
            (tabletMap (snd (startMasterRecovery crashed mgr)))
       \<and> taskQueue (snd (startMasterRecovery crashed mgr)) = taskQueue mgr
       \<and> waitingRecoveries (snd (startMasterRecovery crashed mgr)) = waitingRecoveries mgr
       \<and> nextRecoveryId (snd (startMasterRecovery crashed mgr)) = nextRecoveryId mgr
       \<and> (map_of (sl_entries (serverList mgr)) crashed \<noteq> None \<longrightarrow>
            startMasterRecovery crashed mgr
              = restartMasterRecovery crashed
                  (mgr\<lparr>tabletMap := tabletMap (snd (startMasterRecovery crashed mgr))\<rparr>)
          \<and> trace (snd (startMasterRecovery crashed mgr))
              = trace mgr @ [LOG NOTICE ''Scheduling recovery of master %lu'' [crashed],
                             TEST_LOG ''Recovery crashedServerId: %lu'',
                             TEST_LOG ''Recovery will: %s''])"
proof -
  let ?tm' = "fst (setStatusForServer crashed RECOVERING (tabletMap mgr))"
  let ?mgr1 = "mgr\<lparr>tabletMap := ?tm'\<rparr>"
  have affected: "snd (setStatusForServer crashed RECOVERING (tabletMap mgr)) \<noteq> []"
    using assms(2) by (simp add: setStatusForServer_none_affected)
  have start: "startMasterRecovery crashed mgr = restartMasterRecovery crashed ?mgr1"
    using affected by (auto simp: startMasterRecovery_def Let_def split: prod.splits)
  have flag: "doNotStartRecoveries ?mgr1"
    using assms(1) by simp
  have tm: "tabletMap (snd (startMasterRecovery crashed mgr)) = ?tm'"
    unfolding start using restartMasterRecovery_doNotStart(1) [OF flag] by simp
  have marked: "list_all (\<lambda>(k, t). tablet_serverId t = crashed \<longrightarrow> tablet_status t = RECOVERING) ?tm'"
    by (auto simp: setStatusForServer_fst list_all_iff)
  show ?thesis
    using restartMasterRecovery_doNotStart [OF flag, of crashed] marked
    unfolding tm unfolding start
    by (simp add: setStatusForServer_fst)
qed

theorem startMasterRecovery_doNotStartRecoveries_witness:
  "doNotStartRecoveries (example_mgr\<lparr>doNotStartRecoveries := True\<rparr>)
   \<and> list_ex (\<lambda>(k, t). tablet_serverId t = 10)
       (tabletMap (example_mgr\<lparr>doNotStartRecoveries := True\<rparr>))
   \<and> tabletMap (snd (startMasterRecovery 10 (example_mgr\<lparr>doNotStartRecoveries := True\<rparr>)))
       = [((1, 0, 99), \<lparr>tablet_serverId = 10, tablet_status = RECOVERING, tablet_ctime = (0, 0)\<rparr>),
          ((1, 100, 199), \<lparr>tablet_serverId = 11, tablet_status = NORMAL, tablet_ctime = (0, 0)\<rparr>)]
   \<and> taskQueue (snd (startMasterRecovery 10 (example_mgr\<lparr>doNotStartRecoveries := True\<rparr>))) = []
   \<and> waitingRecoveries (snd (startMasterRecovery 10 (example_mgr\<lparr>doNotStartRecoveries := True\<rparr>)))
       = []"
  using startMasterRecovery_doNotStartRecoveries
          [of "example_mgr\<lparr>doNotStartRecoveries := True\<rparr>" 10]
  by (simp add: example_mgr_def MasterRecoveryManager_new_def example_tabletMap_def)

subsection \<open>Finalizing tablet ownership\<close>

lemma find_snoc:
  "find P (xs @ [x]) = (case find P xs of None \<Rightarrow> (if P x then Some x else None) | Some y \<Rightarrow> Some y)"
  by (induction xs) auto

lemma find_distinct_key:
  "distinct (map f xs) \<Longrightarrow> x \<in> set xs \<Longrightarrow> find (\<lambda>u. f u = f x) xs = Some x"
  by (induction xs) (auto simp: image_iff)

lemma modifyTablet_present:
  "map_of tm k \<noteq> None \<Longrightarrow>
   modifyTablet k owner st pos tm
     = Some (AList.update k \<lparr>tablet_serverId = owner, tablet_status = st, tablet_ctime = pos\<rparr> tm)"
  by (auto simp: modifyTablet_def)

lemma modifyTablet_absent: "map_of tm k = None \<Longrightarrow> modifyTablet k owner st pos tm = None"
  by (simp add: modifyTablet_def)

lemma update_present_keys: "map_of al k \<noteq> None \<Longrightarrow> map fst (AList.update k v al) = map fst al"
  by (simp add: update_keys map_of_eq_None_iff)

lemma modifyTablets_returns:
  assumes "list_all (\<lambda>t. map_of (tabletMap mgr) (tabletKey t) \<noteq> None) tablets"
  shows "fst (modifyTablets tablets mgr) = Returned
       \<and> trace (snd (modifyTablets tablets mgr))
           = trace mgr @ map (\<lambda>t. Call_modifyTablet (tabletKey t) (server_id t) NORMAL
                                  (ctime_log_head_id t, ctime_log_head_offset t)) tablets
       \<and> map fst (tabletMap (snd (modifyTablets tablets mgr))) = map fst (tabletMap mgr)
       \<and> (\<forall>k. map_of (tabletMap (snd (modifyTablets tablets mgr))) k
              = (case find (\<lambda>t. tabletKey t = k) (rev tablets) of
                   None \<Rightarrow> map_of (tabletMap mgr) k
                 | Some t \<Rightarrow> Some \<lparr>tablet_serverId = server_id t, tablet_status = NORMAL,
                     tablet_ctime = (ctime_log_head_id t, ctime_log_head_offset t)\<rparr>))
       \<and> snd (modifyTablets tablets mgr)
           = mgr\<lparr>tabletMap := tabletMap (snd (modifyTablets tablets mgr)),
                 trace := trace (snd (modifyTablets tablets mgr))\<rparr>"
  using assms
proof (induction tablets arbitrary: mgr)
  case Nil
  then show ?case by simp
next
  case (Cons t rest)
  let ?v = "\<lparr>tablet_serverId = server_id t, tablet_status = NORMAL,
             tablet_ctime = (ctime_log_head_id t, ctime_log_head_offset t)\<rparr>"
  let ?mgr1 = "emit (Call_modifyTablet (tabletKey t) (server_id t) NORMAL
                  (ctime_log_head_id t, ctime_log_head_offset t)) mgr"
  let ?tm' = "AList.update (tabletKey t) ?v (tabletMap mgr)"
  let ?mgr2 = "?mgr1\<lparr>tabletMap := ?tm'\<rparr>"
  from Cons.prems have present: "map_of (tabletMap mgr) (tabletKey t) \<noteq> None"
    and rest: "list_all (\<lambda>t. map_of (tabletMap mgr) (tabletKey t) \<noteq> None) rest"
    by simp_all
  have step: "modifyTablets (t # rest) mgr = modifyTablets rest ?mgr2"
    using present by (simp add: Let_def emit_def modifyTablet_present)
  have keys: "map fst ?tm' = map fst (tabletMap mgr)"
    using present by (rule update_present_keys)
  have "list_all (\<lambda>t. map_of (tabletMap ?mgr2) (tabletKey t) \<noteq> None) rest"
    using rest by (simp add: list_all_iff update_conv')
  from Cons.IH [OF this] show ?case
    unfolding step
    by (auto simp: emit_def keys update_conv' find_snoc split: option.splits)
qed

lemma modifyTablets_dies:
  assumes "\<not> list_all (\<lambda>t. map_of (tabletMap mgr) (tabletKey t) \<noteq> None) tablets"
  shows "fst (modifyTablets tablets mgr) = Died
       \<and> last (trace (snd (modifyTablets tablets mgr))) = DIE msg_entryMissing"
  using assms
proof (induction tablets arbitrary: mgr)
  case Nil
  then show ?case by simp
next
  case (Cons t rest)
  show ?case
  proof (cases "map_of (tabletMap mgr) (tabletKey t) = None")
    case True
    then show ?thesis by (simp add: Let_def emit_def modifyTablet_absent)
  next
    case False
    let ?v = "\<lparr>tablet_serverId = server_id t, tablet_status = NORMAL,
               tablet_ctime = (ctime_log_head_id t, ctime_log_head_offset t)\<rparr>"
    let ?mgr1 = "emit (Call_modifyTablet (tabletKey t) (server_id t) NORMAL
                    (ctime_log_head_id t, ctime_log_head_offset t)) mgr"
    let ?mgr2 = "?mgr1\<lparr>tabletMap := AList.update (tabletKey t) ?v (tabletMap mgr)\<rparr>"
    have step: "modifyTablets (t # rest) mgr = modifyTablets rest ?mgr2"
      using False by (simp add: Let_def emit_def modifyTablet_present)
    from Cons.prems False obtain u where u: "u \<in> set rest"
      "map_of (tabletMap mgr) (tabletKey u) = None"
      by (auto simp: list_all_iff)
    with False have "tabletKey u \<noteq> tabletKey t" by auto
    with u have "\<not> list_all (\<lambda>t. map_of (tabletMap ?mgr2) (tabletKey t) \<noteq> None) rest"
      by (auto simp: list_all_iff update_conv' emit_def)
    from Cons.IH [OF this] show ?thesis unfolding step .
  qed
qed

lemma RecoveryMasterFinished_successful_keyed:
  assumes "map_of (activeRecoveries mgr) rid = Some recovery"
  shows
    "(list_all (\<lambda>t. map_of (tabletMap mgr) (tabletKey t) \<noteq> None) recoveredTablets \<longrightarrow>
        fst (RecoveryMasterFinishedTask_performTask rid recoveryMasterId recoveredTablets True mgr)
          = Returned
      \<and> trace (snd (RecoveryMasterFinishedTask_performTask rid recoveryMasterId
                       recoveredTablets True mgr))
          = trace mgr
            @ map (\<lambda>t. Call_modifyTablet (tabletKey t) (server_id t) NORMAL
                         (ctime_log_head_id t, ctime_log_head_offset t)) recoveredTablets
            @ [Call_recoveryMasterFinished recovery recoveryMasterId True]
      \<and> map fst (tabletMap (snd (RecoveryMasterFinishedTask_performTask rid recoveryMasterId
                       recoveredTablets True mgr))) = map fst (tabletMap mgr)
      \<and> (\<forall>k. map_of (tabletMap (snd (RecoveryMasterFinishedTask_performTask rid
                       recoveryMasterId recoveredTablets True mgr))) k
             = (case find (\<lambda>t. tabletKey t = k) (rev recoveredTablets) of
                  None \<Rightarrow> map_of (tabletMap mgr) k
                | Some t \<Rightarrow> Some \<lparr>tablet_serverId = server_id t, tablet_status = NORMAL,
                    tablet_ctime = (ctime_log_head_id t, ctime_log_head_offset t)\<rparr>))
      \<and> (distinct (map tabletKey recoveredTablets) \<longrightarrow>
           list_all (\<lambda>t. map_of (tabletMap (snd (RecoveryMasterFinishedTask_performTask rid
                       recoveryMasterId recoveredTablets True mgr))) (tabletKey t)
               = Some \<lparr>tablet_serverId = server_id t, tablet_status = NORMAL,
                    tablet_ctime = (ctime_log_head_id t, ctime_log_head_offset t)\<rparr>)
             recoveredTablets))
   \<and> (\<not> list_all (\<lambda>t. map_of (tabletMap mgr) (tabletKey t) \<noteq> None) recoveredTablets \<longrightarrow>
        fst (RecoveryMasterFinishedTask_performTask rid recoveryMasterId recoveredTablets True mgr)
          = Died
      \<and> last (trace (snd (RecoveryMasterFinishedTask_performTask rid recoveryMasterId
                       recoveredTablets True mgr))) = DIE msg_entryMissing)"
proof (intro conjI impI)
  let ?R = "RecoveryMasterFinishedTask_performTask rid recoveryMasterId recoveredTablets True mgr"
  let ?M = "modifyTablets recoveredTablets mgr"
  assume all: "list_all (\<lambda>t. map_of (tabletMap mgr) (tabletKey t) \<noteq> None) recoveredTablets"
  note M = modifyTablets_returns [OF all]
  have R: "?R = (Returned, Recovery_recoveryMasterFinished recovery recoveryMasterId True (snd ?M))"
    using assms M by (auto simp: RecoveryMasterFinishedTask_performTask_def split: prod.splits)
  show "fst ?R = Returned" by (simp add: R)
  show "trace (snd ?R) = trace mgr
            @ map (\<lambda>t. Call_modifyTablet (tabletKey t) (server_id t) NORMAL
                         (ctime_log_head_id t, ctime_log_head_offset t)) recoveredTablets
            @ [Call_recoveryMasterFinished recovery recoveryMasterId True]"
    using M by (simp add: R Recovery_recoveryMasterFinished_def emit_def)
  have tm: "tabletMap (snd ?R) = tabletMap (snd ?M)"
    by (simp add: R Recovery_recoveryMasterFinished_def emit_def)
  show "map fst (tabletMap (snd ?R)) = map fst (tabletMap mgr)"
    using M by (simp add: tm)
  show final: "\<forall>k. map_of (tabletMap (snd ?R)) k
             = (case find (\<lambda>t. tabletKey t = k) (rev recoveredTablets) of
                  None \<Rightarrow> map_of (tabletMap mgr) k
                | Some t \<Rightarrow> Some \<lparr>tablet_serverId = server_id t, tablet_status = NORMAL,
                    tablet_ctime = (ctime_log_head_id t, ctime_log_head_offset t)\<rparr>)"
    using M unfolding tm by blast
  assume dist: "distinct (map tabletKey recoveredTablets)"
  have found: "find (\<lambda>u. tabletKey u = tabletKey t) (rev recoveredTablets) = Some t"
    if "t \<in> set recoveredTablets" for t
    using dist that by (intro find_distinct_key) (simp_all add: rev_map [symmetric])
  show "list_all (\<lambda>t. map_of (tabletMap (snd ?R)) (tabletKey t)
               = Some \<lparr>tablet_serverId = server_id t, tablet_status = NORMAL,
                    tablet_ctime = (ctime_log_head_id t, ctime_log_head_offset t)\<rparr>)
             recoveredTablets"
    unfolding list_all_iff
  proof
    fix t assume t: "t \<in> set recoveredTablets"
    from final have "map_of (tabletMap (snd ?R)) (tabletKey t)
             = (case find (\<lambda>u. tabletKey u = tabletKey t) (rev recoveredTablets) of
                  None \<Rightarrow> map_of (tabletMap mgr) (tabletKey t)
                | Some t \<Rightarrow> Some \<lparr>tablet_serverId = server_id t, tablet_status = NORMAL,
                    tablet_ctime = (ctime_log_head_id t, ctime_log_head_offset t)\<rparr>)"
      by (rule spec)
    then show "map_of (tabletMap (snd ?R)) (tabletKey t)
               = Some \<lparr>tablet_serverId = server_id t, tablet_status = NORMAL,
                    tablet_ctime = (ctime_log_head_id t, ctime_log_head_offset t)\<rparr>"
      by (simp only: found [OF t] option.case)
  qed
next
  assume "\<not> list_all (\<lambda>t. map_of (tabletMap mgr) (tabletKey t) \<noteq> None) recoveredTablets"
  from modifyTablets_dies [OF this]
  show "fst (RecoveryMasterFinishedTask_performTask rid recoveryMasterId recoveredTablets True mgr) = Died"
    and "last (trace (snd (RecoveryMasterFinishedTask_performTask rid recoveryMasterId
                       recoveredTablets True mgr))) = DIE msg_entryMissing"
    using assms
    by (auto simp: RecoveryMasterFinishedTask_performTask_def split: prod.splits Outcome.splits)
qed


text \<open>
  C4 (amended). A RecoveryMasterFinished task with \<^verbatim>\<open>successful = true\<close> whose recovery id
  is in \<^verbatim>\<open>activeRecoveries\<close>: when the key (table_id, start_key_hash, end_key_hash) of every
  recovered tablet is in the tablet map, the task returns after exactly one
  \<^verbatim>\<open>modifyTablet\<close> call per entry of \<^verbatim>\<open>recoveredTablets\<close>, in order, each on that key with
  the entry's \<^verbatim>\<open>server_id\<close> as owner, status NORMAL and the entry's log head position; the
  tablet map has the same keys as before and under each key the values of the last entry
  with that key (the old values when no entry has it). When the keys of the entries are
  pairwise distinct, every entry's values are the ones recorded under its key. Then the
  Recovery is told. When some key is absent from the tablet map the process aborts in
  \<^verbatim>\<open>DIE\<close>. With a key repeated in \<^verbatim>\<open>recoveredTablets\<close> the entry under it is updated once
  per occurrence, and the owner of an earlier occurrence is overwritten.
\<close>

theorem RecoveryMasterFinished_successful:
  assumes "map_of (activeRecoveries mgr) rid = Some recovery"
  shows
    "(list_all (\<lambda>t. map_of (tabletMap mgr) ((table_id t, start_key_hash t, end_key_hash t)) \<noteq> None) recoveredTablets \<longrightarrow>
        fst (RecoveryMasterFinishedTask_performTask rid recoveryMasterId recoveredTablets True mgr)
          = Returned
      \<and> trace (snd (RecoveryMasterFinishedTask_performTask rid recoveryMasterId
                       recoveredTablets True mgr))
          = trace mgr
            @ map (\<lambda>t. Call_modifyTablet ((table_id t, start_key_hash t, end_key_hash t)) (server_id t) NORMAL
                         (ctime_log_head_id t, ctime_log_head_offset t)) recoveredTablets
            @ [Call_recoveryMasterFinished recovery recoveryMasterId True]
      \<and> map fst (tabletMap (snd (RecoveryMasterFinishedTask_performTask rid recoveryMasterId
                       recoveredTablets True mgr))) = map fst (tabletMap mgr)
      \<and> (\<forall>k. map_of (tabletMap (snd (RecoveryMasterFinishedTask_performTask rid
                       recoveryMasterId recoveredTablets True mgr))) k
             = (case find (\<lambda>t. (table_id t, start_key_hash t, end_key_hash t) = k) (rev recoveredTablets) of
                  None \<Rightarrow> map_of (tabletMap mgr) k
                | Some t \<Rightarrow> Some \<lparr>tablet_serverId = server_id t, tablet_status = NORMAL,
                    tablet_ctime = (ctime_log_head_id t, ctime_log_head_offset t)\<rparr>))
      \<and> (distinct (map (\<lambda>t. (table_id t, start_key_hash t, end_key_hash t)) recoveredTablets) \<longrightarrow>
           list_all (\<lambda>t. map_of (tabletMap (snd (RecoveryMasterFinishedTask_performTask rid
                       recoveryMasterId recoveredTablets True mgr))) ((table_id t, start_key_hash t, end_key_hash t))
               = Some \<lparr>tablet_serverId = server_id t, tablet_status = NORMAL,
                    tablet_ctime = (ctime_log_head_id t, ctime_log_head_offset t)\<rparr>)
             recoveredTablets))
   \<and> (\<not> list_all (\<lambda>t. map_of (tabletMap mgr) ((table_id t, start_key_hash t, end_key_hash t)) \<noteq> None) recoveredTablets \<longrightarrow>
        fst (RecoveryMasterFinishedTask_performTask rid recoveryMasterId recoveredTablets True mgr)
          = Died
      \<and> last (trace (snd (RecoveryMasterFinishedTask_performTask rid recoveryMasterId
                       recoveredTablets True mgr))) = DIE msg_entryMissing)"
  by (rule RecoveryMasterFinished_successful_keyed [OF assms, unfolded tabletKey_def])

theorem RecoveryMasterFinished_successful_witness:
  "map_of (activeRecoveries example_mgr_recovering) 1 = Some example_recA
   \<and> fst (RecoveryMasterFinishedTask_performTask 1 11 [example_recovered] True
          example_mgr_recovering) = Returned
   \<and> tabletMap (snd (RecoveryMasterFinishedTask_performTask 1 11 [example_recovered] True
         example_mgr_recovering))
       = [((7, 100, 199),
           \<lparr>tablet_serverId = 11, tablet_status = NORMAL, tablet_ctime = (3, 8)\<rparr>),
          ((7, 200, 299),
           \<lparr>tablet_serverId = 10, tablet_status = RECOVERING, tablet_ctime = (0, 0)\<rparr>)]
   \<and> trace (snd (RecoveryMasterFinishedTask_performTask 1 11 [example_recovered] True
         example_mgr_recovering))
       = [Call_modifyTablet (7, 100, 199) 11 NORMAL (3, 8),
          Call_recoveryMasterFinished example_recA 11 True]
   \<and> fst (RecoveryMasterFinishedTask_performTask 1 11 [example_recovered\<lparr>table_id := 2\<rparr>] True
         example_mgr_recovering) = Died
   \<and> fst (RecoveryMasterFinishedTask_performTask 1 11
         [example_recovered\<lparr>start_key_hash := 0\<rparr>] True example_mgr_recovering) = Died
   \<and> fst (RecoveryMasterFinishedTask_performTask 1 11
         [example_recovered\<lparr>end_key_hash := 299\<rparr>] True example_mgr_recovering) = Died"
proof -
  have active: "map_of (activeRecoveries example_mgr_recovering) 1 = Some example_recA"
    by code_simp
  have "tabletMap (snd (RecoveryMasterFinishedTask_performTask 1 11 [example_recovered] True
         example_mgr_recovering))
       = [((7, 100, 199),
           \<lparr>tablet_serverId = 11, tablet_status = NORMAL, tablet_ctime = (3, 8)\<rparr>),
          ((7, 200, 299),
           \<lparr>tablet_serverId = 10, tablet_status = RECOVERING, tablet_ctime = (0, 0)\<rparr>)]"
    "trace (snd (RecoveryMasterFinishedTask_performTask 1 11 [example_recovered] True
         example_mgr_recovering))
       = [Call_modifyTablet (7, 100, 199) 11 NORMAL (3, 8),
          Call_recoveryMasterFinished example_recA 11 True]"
    "list_all (\<lambda>t. map_of (tabletMap example_mgr_recovering)
                  (table_id t, start_key_hash t, end_key_hash t) \<noteq> None) [example_recovered]"
    "\<not> list_all (\<lambda>t. map_of (tabletMap example_mgr_recovering)
                  (table_id t, start_key_hash t, end_key_hash t) \<noteq> None)
          [example_recovered\<lparr>table_id := 2\<rparr>]"
    "\<not> list_all (\<lambda>t. map_of (tabletMap example_mgr_recovering)
                  (table_id t, start_key_hash t, end_key_hash t) \<noteq> None)
          [example_recovered\<lparr>start_key_hash := 0\<rparr>]"
    "\<not> list_all (\<lambda>t. map_of (tabletMap example_mgr_recovering)
                  (table_id t, start_key_hash t, end_key_hash t) \<noteq> None)
          [example_recovered\<lparr>end_key_hash := 299\<rparr>]"
    by code_simp+
  with active
    RecoveryMasterFinished_successful
      [OF active, where recoveryMasterId = 11 and recoveredTablets = "[example_recovered]"]
    RecoveryMasterFinished_successful
      [OF active, where recoveryMasterId = 11
         and recoveredTablets = "[example_recovered\<lparr>table_id := 2\<rparr>]"]
    RecoveryMasterFinished_successful
      [OF active, where recoveryMasterId = 11
         and recoveredTablets = "[example_recovered\<lparr>start_key_hash := 0\<rparr>]"]
    RecoveryMasterFinished_successful
      [OF active, where recoveryMasterId = 11
         and recoveredTablets = "[example_recovered\<lparr>end_key_hash := 299\<rparr>]"]
  show ?thesis by blast
qed

text \<open>
  C4 without the amendment, with every entry's owner recorded exactly once, does not
  hold: where \<^verbatim>\<open>recoveredTablets\<close> names one key twice, the entry under the key is updated
  twice, and the owner it ends with is the second occurrence's, not the first's.
\<close>

theorem RecoveryMasterFinished_repeated_key_counterexample:
  "map_of (activeRecoveries example_mgr_recovering) 1 = Some example_recA
   \<and> server_id example_recovered = 11
   \<and> fst (RecoveryMasterFinishedTask_performTask 1 11
         [example_recovered, example_recovered\<lparr>server_id := 12\<rparr>] True example_mgr_recovering)
       = Returned
   \<and> trace (snd (RecoveryMasterFinishedTask_performTask 1 11
         [example_recovered, example_recovered\<lparr>server_id := 12\<rparr>] True example_mgr_recovering))
       = [Call_modifyTablet (7, 100, 199) 11 NORMAL (3, 8),
          Call_modifyTablet (7, 100, 199) 12 NORMAL (3, 8),
          Call_recoveryMasterFinished example_recA 11 True]
   \<and> map_of (tabletMap (snd (RecoveryMasterFinishedTask_performTask 1 11
         [example_recovered, example_recovered\<lparr>server_id := 12\<rparr>] True example_mgr_recovering)))
         (7, 100, 199)
       = Some \<lparr>tablet_serverId = 12, tablet_status = NORMAL, tablet_ctime = (3, 8)\<rparr>
   \<and> map_of (tabletMap (snd (RecoveryMasterFinishedTask_performTask 1 11
         [example_recovered, example_recovered\<lparr>server_id := 12\<rparr>] True example_mgr_recovering)))
         (7, 100, 199)
       \<noteq> Some \<lparr>tablet_serverId = 11, tablet_status = NORMAL, tablet_ctime = (3, 8)\<rparr>"
  by code_simp

subsection \<open>The end of a recovery\<close>

text \<open>
  C7. \<^verbatim>\<open>recoveryFinished\<close> on a completely successful recovery removes the crashed server
  from the server list, increments the list's version, broadcasts the update that
  holds both, and schedules one MaybeStartRecovery task. On a recovery that was
  not completely successful it leaves the server list alone and schedules exactly one new
  EnqueueMasterRecovery task, whose Recovery has a fresh id and the same crashed server
  id, will and minOpenSegmentId; the waiting queue is not touched until that task runs,
  and when it runs it appends exactly this one Recovery and schedules an admission task.
\<close>

theorem recoveryFinished_effects:
  "serverList (recoveryFinished recovery True mgr)
     = (serverList mgr)\<lparr>sl_entries := AList.delete (crashedServerId recovery)
                                         (sl_entries (serverList mgr)),
                        sl_version := sl_version (serverList mgr) + 1\<rparr>
   \<and> map_of (sl_entries (serverList (recoveryFinished recovery True mgr)))
        (crashedServerId recovery) = None
   \<and> trace (recoveryFinished recovery True mgr)
       = trace mgr @ [LOG NOTICE ''Recovery completed for master %lu'' [crashedServerId recovery],
           Call_sendMembershipUpdate
             \<lparr>update_removed = [crashedServerId recovery],
              update_version = Some (sl_version (serverList mgr) + 1)\<rparr>]
   \<and> taskQueue (recoveryFinished recovery True mgr) = taskQueue mgr @ [MaybeStartRecoveryTask]
   \<and> waitingRecoveries (recoveryFinished recovery True mgr) = waitingRecoveries mgr
   \<and> serverList (recoveryFinished recovery False mgr) = serverList mgr
   \<and> taskQueue (recoveryFinished recovery False mgr)
       = taskQueue mgr
         @ [EnqueueMasterRecoveryTask
              \<lparr>recoveryId = nextRecoveryId mgr, crashedServerId = crashedServerId recovery,
               will = will recovery, minOpenSegmentId = minOpenSegmentId recovery\<rparr>
              (minOpenSegmentId recovery)]
   \<and> waitingRecoveries (recoveryFinished recovery False mgr) = waitingRecoveries mgr
   \<and> waitingRecoveries (EnqueueMasterRecoveryTask_performTask r' mgr') = waitingRecoveries mgr' @ [r']
   \<and> taskQueue (EnqueueMasterRecoveryTask_performTask r' mgr')
       = taskQueue mgr' @ [MaybeStartRecoveryTask]"
  by (simp add: recoveryFinished_def ServerList_remove_def incrementVersion_def emit_def
        scheduleNew_def EnqueueMasterRecoveryTask_new_def Recovery_new_def
        EnqueueMasterRecoveryTask_performTask_def Let_def delete_conv')

subsection \<open>Admission\<close>

lemma maybeStart_loop_unroll:
  "\<exists>n. maybeStart_loop st = (maybeStart_body ^^ n) st
     \<and> (\<forall>i<n. maybeStart_cond (fst ((maybeStart_body ^^ i) st)))
     \<and> \<not> maybeStart_cond (fst ((maybeStart_body ^^ n) st))"
proof (induction st rule: maybeStart_loop.induct)
  case (1 st)
  show ?case
  proof (cases "maybeStart_cond (fst st)")
    case False
    then have "maybeStart_loop st = (maybeStart_body ^^ 0) st"
      by (simp add: maybeStart_loop.simps)
    with False show ?thesis by (intro exI [of _ 0]) simp
  next
    case True
    from 1 [OF True] obtain n where
      n: "maybeStart_loop (maybeStart_body st) = (maybeStart_body ^^ n) (maybeStart_body st)"
         "\<forall>i<n. maybeStart_cond (fst ((maybeStart_body ^^ i) (maybeStart_body st)))"
         "\<not> maybeStart_cond (fst ((maybeStart_body ^^ n) (maybeStart_body st)))"
      by blast
    have swap: "\<And>k. (maybeStart_body ^^ k) (maybeStart_body st) = (maybeStart_body ^^ Suc k) st"
      by (simp add: funpow_swap1)
    have "maybeStart_loop st = (maybeStart_body ^^ Suc n) st"
      using True n(1) by (subst maybeStart_loop.simps) (simp add: funpow_swap1)
    moreover have "\<forall>i<Suc n. maybeStart_cond (fst ((maybeStart_body ^^ i) st))"
    proof (intro allI impI)
      fix i assume "i < Suc n"
      show "maybeStart_cond (fst ((maybeStart_body ^^ i) st))"
      proof (cases i)
        case 0
        with True show ?thesis by simp
      next
        case (Suc j)
        with \<open>i < Suc n\<close> n(2) have "maybeStart_cond (fst ((maybeStart_body ^^ j) (maybeStart_body st)))"
          by simp
        then show ?thesis unfolding Suc swap .
      qed
    qed
    moreover have "\<not> maybeStart_cond (fst ((maybeStart_body ^^ Suc n) st))"
      using n(3) unfolding swap .
    ultimately show ?thesis by blast
  qed
qed

lemma maybeStart_body_defer:
  assumes "waitingRecoveries m = r # rest" "serverAlreadyRecovering (activeRecoveries m) r"
  shows "snd (maybeStart_body (m, aa)) = aa @ [r]"
    "waitingRecoveries (fst (maybeStart_body (m, aa))) = rest"
    "activeRecoveries (fst (maybeStart_body (m, aa))) = activeRecoveries m"
    "taskQueue (fst (maybeStart_body (m, aa))) = taskQueue m"
    "maxActiveRecoveries (fst (maybeStart_body (m, aa))) = maxActiveRecoveries m"
  using assms by (simp_all add: maybeStart_body_def emit_def)

lemma maybeStart_body_admit:
  assumes "waitingRecoveries m = r # rest" "\<not> serverAlreadyRecovering (activeRecoveries m) r"
  shows "snd (maybeStart_body (m, aa)) = aa"
    "waitingRecoveries (fst (maybeStart_body (m, aa))) = rest"
    "activeRecoveries (fst (maybeStart_body (m, aa)))
       = AList.update (recoveryId r) r (activeRecoveries m)"
    "taskQueue (fst (maybeStart_body (m, aa))) = schedule (RecoveryTask r) (taskQueue m)"
    "maxActiveRecoveries (fst (maybeStart_body (m, aa))) = maxActiveRecoveries m"
  using assms by (simp_all add: maybeStart_body_def emit_def Let_def)


lemma maybeStart_state_0: "maybeStart_state mgr 0 = (mgr, [])"
  by (simp add: maybeStart_state_def)

lemma maybeStart_state_Suc:
  "maybeStart_state mgr (Suc i) = maybeStart_body (maybeStart_state mgr i)"
  by (simp add: maybeStart_state_def)

lemma distinct_map_nth_notin_take:
  assumes "distinct (map f xs)" "i < length xs"
  shows "f (xs ! i) \<notin> f ` set (take i xs)"
proof
  assume "f (xs ! i) \<in> f ` set (take i xs)"
  then obtain j where j: "j < i" "f (xs ! j) = f (xs ! i)"
    using assms(2) by (auto simp: in_set_conv_nth)
  from assms(1) have inj: "inj_on f (set xs)" and d: "distinct xs"
    by (simp_all add: distinct_map)
  from j assms(2) have "xs ! j \<in> set xs" "xs ! i \<in> set xs" by simp_all
  with inj j(2) have "xs ! j = xs ! i" by (auto dest: inj_onD)
  with d j(1) assms(2) have "j = i" by (simp add: nth_eq_iff_index_eq)
  with j show False by simp
qed

lemma set_schedule: "set (schedule t q) = insert t (set q)"
  by (auto simp: schedule_def)

lemma maybeStart_state_inv:
  assumes wf: "recoveryIds_unique mgr"
  shows "(\<forall>j<i. maybeStart_cond (fst (maybeStart_state mgr j))) \<Longrightarrow>
     i \<le> length (waitingRecoveries mgr)
   \<and> waitingRecoveries (fst (maybeStart_state mgr i)) = drop i (waitingRecoveries mgr)
   \<and> maxActiveRecoveries (fst (maybeStart_state mgr i)) = maxActiveRecoveries mgr
   \<and> snd (maybeStart_state mgr i)
       = filter (\<lambda>r. map_of (activeRecoveries (fst (maybeStart_state mgr i))) (recoveryId r) = None)
           (take i (waitingRecoveries mgr))
   \<and> (\<forall>k. k \<notin> recoveryId ` set (take i (waitingRecoveries mgr)) \<longrightarrow>
          map_of (activeRecoveries (fst (maybeStart_state mgr i))) k
            = map_of (activeRecoveries mgr) k)
   \<and> (\<forall>j<i. if serverAlreadyRecovering (activeRecoveries (fst (maybeStart_state mgr j)))
                   (waitingRecoveries mgr ! j)
              then map_of (activeRecoveries (fst (maybeStart_state mgr i)))
                     (recoveryId (waitingRecoveries mgr ! j)) = None
              else map_of (activeRecoveries (fst (maybeStart_state mgr i)))
                     (recoveryId (waitingRecoveries mgr ! j)) = Some (waitingRecoveries mgr ! j)
                 \<and> RecoveryTask (waitingRecoveries mgr ! j)
                     \<in> set (taskQueue (fst (maybeStart_state mgr i))))"
proof (induction i)
  case 0
  then show ?case by (simp add: maybeStart_state_0)
next
  case (Suc i)
  let ?w = "waitingRecoveries mgr"
  let ?m = "fst (maybeStart_state mgr i)"
  let ?aa = "snd (maybeStart_state mgr i)"
  let ?m' = "fst (maybeStart_state mgr (Suc i))"
  let ?r = "?w ! i"
  from Suc.prems have conds: "\<forall>j<i. maybeStart_cond (fst (maybeStart_state mgr j))"
    and cond: "maybeStart_cond ?m"
    by simp_all
  note IH = Suc.IH [OF conds]
  from IH have len: "i \<le> length ?w" and wq: "waitingRecoveries ?m = drop i ?w"
    and mx: "maxActiveRecoveries ?m = maxActiveRecoveries mgr"
    and aa: "?aa = filter (\<lambda>r. map_of (activeRecoveries ?m) (recoveryId r) = None) (take i ?w)"
    and untouched: "\<forall>k. k \<notin> recoveryId ` set (take i ?w) \<longrightarrow>
          map_of (activeRecoveries ?m) k = map_of (activeRecoveries mgr) k"
    and decided: "\<forall>j<i. if serverAlreadyRecovering (activeRecoveries (fst (maybeStart_state mgr j))) (?w ! j)
              then map_of (activeRecoveries ?m) (recoveryId (?w ! j)) = None
              else map_of (activeRecoveries ?m) (recoveryId (?w ! j)) = Some (?w ! j)
                 \<and> RecoveryTask (?w ! j) \<in> set (taskQueue ?m)"
    by blast+
  from cond wq have i: "i < length ?w"
    by (simp add: maybeStart_cond_def)
  then have front: "waitingRecoveries ?m = ?r # drop (Suc i) ?w"
    by (simp add: wq Cons_nth_drop_Suc)
  have tk: "take (Suc i) ?w = take i ?w @ [?r]"
    using i by (rule take_Suc_conv_app_nth)
  from wf have dist: "distinct (map recoveryId ?w)"
    and fresh: "\<forall>r\<in>set ?w. map_of (activeRecoveries mgr) (recoveryId r) = None"
    by (simp_all add: recoveryIds_unique_def list_all_iff)
  have notin: "recoveryId ?r \<notin> recoveryId ` set (take i ?w)"
    using dist i by (rule distinct_map_nth_notin_take)
  have notin': "\<forall>x\<in>set (take i ?w). recoveryId x \<noteq> recoveryId ?r"
    using notin by (metis imageI)
  have none: "map_of (activeRecoveries ?m) (recoveryId ?r) = None"
    using untouched notin fresh i by simp
  have other: "recoveryId (?w ! j) \<noteq> recoveryId ?r" if "j < i" for j
  proof -
    from that i have "?w ! j \<in> set (take i ?w)"
      by (auto simp: in_set_conv_nth intro!: exI [of _ j])
    with notin show ?thesis by (metis imageI)
  qed
  have st: "maybeStart_state mgr (Suc i) = maybeStart_body (?m, ?aa)"
    by (simp add: maybeStart_state_Suc)
  show ?case
  proof (cases "serverAlreadyRecovering (activeRecoveries ?m) ?r")
    case True
    note b = maybeStart_body_defer [OF front True, of ?aa, folded st]
    have A: "activeRecoveries ?m' = activeRecoveries ?m" by (rule b(3))
    have "\<forall>j<Suc i. if serverAlreadyRecovering (activeRecoveries (fst (maybeStart_state mgr j))) (?w ! j)
              then map_of (activeRecoveries ?m') (recoveryId (?w ! j)) = None
              else map_of (activeRecoveries ?m') (recoveryId (?w ! j)) = Some (?w ! j)
                 \<and> RecoveryTask (?w ! j) \<in> set (taskQueue ?m')"
      using decided True none by (auto simp: A b(4) less_Suc_eq)
    moreover have "snd (maybeStart_state mgr (Suc i))
       = filter (\<lambda>r. map_of (activeRecoveries ?m') (recoveryId r) = None) (take (Suc i) ?w)"
      using aa none by (simp add: b(1) A tk)
    moreover have "\<forall>k. k \<notin> recoveryId ` set (take (Suc i) ?w) \<longrightarrow>
          map_of (activeRecoveries ?m') k = map_of (activeRecoveries mgr) k"
      using untouched by (simp add: A tk)
    ultimately show ?thesis
      using i mx by (simp add: b(2) b(5))
  next
    case False
    note b = maybeStart_body_admit [OF front False, of ?aa, folded st]
    have A: "map_of (activeRecoveries ?m') = (map_of (activeRecoveries ?m))(recoveryId ?r \<mapsto> ?r)"
      by (simp add: b(3) update_conv')
    have "\<forall>j<Suc i. if serverAlreadyRecovering (activeRecoveries (fst (maybeStart_state mgr j))) (?w ! j)
              then map_of (activeRecoveries ?m') (recoveryId (?w ! j)) = None
              else map_of (activeRecoveries ?m') (recoveryId (?w ! j)) = Some (?w ! j)
                 \<and> RecoveryTask (?w ! j) \<in> set (taskQueue ?m')"
      using decided False other by (auto simp: A b(4) less_Suc_eq set_schedule)
    moreover have "snd (maybeStart_state mgr (Suc i))
       = filter (\<lambda>r. map_of (activeRecoveries ?m') (recoveryId r) = None) (take (Suc i) ?w)"
    proof -
      have "filter (\<lambda>r. map_of (activeRecoveries ?m') (recoveryId r) = None) (take i ?w)
          = filter (\<lambda>r. map_of (activeRecoveries ?m) (recoveryId r) = None) (take i ?w)"
        using notin' by (intro filter_cong) (simp_all add: A)
      then show ?thesis by (simp add: b(1) aa tk A)
    qed
    moreover have "\<forall>k. k \<notin> recoveryId ` set (take (Suc i) ?w) \<longrightarrow>
          map_of (activeRecoveries ?m') k = map_of (activeRecoveries mgr) k"
      using untouched by (simp add: A tk)
    ultimately show ?thesis
      using i mx by (simp add: b(2) b(5))
  qed
qed

lemma maybeStart_run:
  "\<exists>n. maybeStart_loop (mgr, []) = maybeStart_state mgr n
     \<and> (\<forall>i<n. maybeStart_cond (fst (maybeStart_state mgr i)))
     \<and> \<not> maybeStart_cond (fst (maybeStart_state mgr n))"
  using maybeStart_loop_unroll [of "(mgr, [])"] by (simp add: maybeStart_state_def)

lemma MaybeStartRecoveryTask_fields:
  "waitingRecoveries (MaybeStartRecoveryTask_performTask mgr)
     = waitingRecoveries (fst (maybeStart_loop (mgr, []))) @ snd (maybeStart_loop (mgr, []))"
  "activeRecoveries (MaybeStartRecoveryTask_performTask mgr)
     = activeRecoveries (fst (maybeStart_loop (mgr, [])))"
  "taskQueue (MaybeStartRecoveryTask_performTask mgr)
     = taskQueue (fst (maybeStart_loop (mgr, [])))"
  "maxActiveRecoveries (MaybeStartRecoveryTask_performTask mgr)
     = maxActiveRecoveries (fst (maybeStart_loop (mgr, [])))"
  by (simp_all add: MaybeStartRecoveryTask_performTask_def Let_def emit_def split: prod.splits)

lemma update_fresh: "map_of al k = None \<Longrightarrow> AList.update k v al = al @ [(k, v)]"
  by (induction al) (auto split: if_splits)





subsection \<open>Invariants of the active set\<close>

lemma ApplyTrackerChanges_empty:
  "changes (tracker mgr) = [] \<Longrightarrow> ApplyTrackerChangesTask_performTask mgr = mgr"
  by (subst ApplyTrackerChangesTask_performTask.simps) (simp add: getChange_def)

lemma ApplyTrackerChanges_added:
  "changes (tracker mgr) = (server, SERVER_ADDED) # rest \<Longrightarrow>
   ApplyTrackerChangesTask_performTask mgr
     = ApplyTrackerChangesTask_performTask (mgr\<lparr>tracker := (tracker mgr)\<lparr>changes := rest\<rparr>\<rparr>)"
  by (subst ApplyTrackerChangesTask_performTask.simps) (simp add: getChange_def)

lemma ApplyTrackerChanges_claimed:
  "changes (tracker mgr) = (server, event) # rest \<Longrightarrow> event \<noteq> SERVER_ADDED \<Longrightarrow>
   map_of (slots (tracker mgr)) (serverId server) = Some recovery \<Longrightarrow>
   ApplyTrackerChangesTask_performTask mgr
     = ApplyTrackerChangesTask_performTask
         (Recovery_recoveryMasterFinished recovery (serverId server) False
            (mgr\<lparr>tracker := (tracker mgr)\<lparr>changes := rest\<rparr>\<rparr>))"
  by (subst ApplyTrackerChangesTask_performTask.simps, cases event)
     (simp_all add: getChange_def)

lemma ApplyTrackerChanges_unclaimed:
  "changes (tracker mgr) = (server, event) # rest \<Longrightarrow> event \<noteq> SERVER_ADDED \<Longrightarrow>
   map_of (slots (tracker mgr)) (serverId server) = None \<Longrightarrow>
   ApplyTrackerChangesTask_performTask mgr = mgr\<lparr>tracker := (tracker mgr)\<lparr>changes := rest\<rparr>\<rparr>"
  by (subst ApplyTrackerChangesTask_performTask.simps, cases event)
     (simp_all add: getChange_def)

lemma ApplyTrackerChanges_frame_aux:
  "changes (tracker mgr) = evs \<Longrightarrow>
   activeRecoveries (ApplyTrackerChangesTask_performTask mgr) = activeRecoveries mgr
   \<and> maxActiveRecoveries (ApplyTrackerChangesTask_performTask mgr) = maxActiveRecoveries mgr
   \<and> waitingRecoveries (ApplyTrackerChangesTask_performTask mgr) = waitingRecoveries mgr"
proof (induction evs arbitrary: mgr)
  case Nil
  then show ?case by (simp add: ApplyTrackerChanges_empty)
next
  case (Cons ev rest)
  obtain server event where ev: "ev = (server, event)" by (cases ev)
  let ?mgr1 = "mgr\<lparr>tracker := (tracker mgr)\<lparr>changes := rest\<rparr>\<rparr>"
  show ?case
  proof (cases "event = SERVER_ADDED")
    case True
    with Cons.prems ev Cons.IH [of ?mgr1] show ?thesis
      by (simp add: ApplyTrackerChanges_added)
  next
    case False
    show ?thesis
    proof (cases "map_of (slots (tracker mgr)) (serverId server)")
      case None
      with Cons.prems ev False show ?thesis
        by (simp add: ApplyTrackerChanges_unclaimed)
    next
      case (Some recovery)
      let ?mgr2 = "Recovery_recoveryMasterFinished recovery (serverId server) False ?mgr1"
      have "changes (tracker ?mgr2) = rest"
        by (simp add: Recovery_recoveryMasterFinished_def emit_def)
      from Cons.IH [OF this] Cons.prems ev False Some show ?thesis
        by (simp add: ApplyTrackerChanges_claimed [where rest = rest])
           (simp add: Recovery_recoveryMasterFinished_def emit_def)
    qed
  qed
qed

lemmas ApplyTrackerChanges_frame = ApplyTrackerChanges_frame_aux [OF refl]

lemma modifyTablets_frame:
  "activeRecoveries (snd (modifyTablets tablets mgr)) = activeRecoveries mgr
   \<and> maxActiveRecoveries (snd (modifyTablets tablets mgr)) = maxActiveRecoveries mgr
   \<and> waitingRecoveries (snd (modifyTablets tablets mgr)) = waitingRecoveries mgr"
  by (induction tablets arbitrary: mgr) (auto simp: Let_def emit_def split: option.splits)

lemma RecoveryMasterFinishedTask_frame:
  "activeRecoveries (snd (RecoveryMasterFinishedTask_performTask rid m tablets ok mgr))
     = activeRecoveries mgr
   \<and> maxActiveRecoveries (snd (RecoveryMasterFinishedTask_performTask rid m tablets ok mgr))
     = maxActiveRecoveries mgr
   \<and> waitingRecoveries (snd (RecoveryMasterFinishedTask_performTask rid m tablets ok mgr))
     = waitingRecoveries mgr"
  using modifyTablets_frame [of tablets mgr]
  by (auto simp: RecoveryMasterFinishedTask_performTask_def emit_def
        Recovery_recoveryMasterFinished_def split: option.splits prod.splits Outcome.splits)

lemma startMasterRecovery_frame:
  "activeRecoveries (snd (startMasterRecovery crashed mgr)) = activeRecoveries mgr
   \<and> maxActiveRecoveries (snd (startMasterRecovery crashed mgr)) = maxActiveRecoveries mgr"
  by (auto simp: startMasterRecovery_def restartMasterRecovery_def emit_def Let_def
        EnqueueMasterRecoveryTask_new_def Recovery_new_def
        split: option.splits prod.splits)

lemma recoveryFinished_frame:
  "activeRecoveries (recoveryFinished recovery ok mgr) = activeRecoveries mgr
   \<and> maxActiveRecoveries (recoveryFinished recovery ok mgr) = maxActiveRecoveries mgr
   \<and> waitingRecoveries (recoveryFinished recovery ok mgr) = waitingRecoveries mgr"
  by (auto simp: recoveryFinished_def emit_def Let_def ServerList_remove_def incrementVersion_def
        EnqueueMasterRecoveryTask_new_def Recovery_new_def split: prod.splits)

lemma perform_frame:
  assumes "op \<noteq> Run_MaybeStartRecovery" "\<forall>recovery. op \<noteq> Do_destroyAndFreeRecovery recovery"
  shows "activeRecoveries (perform op mgr) = activeRecoveries mgr"
  using assms
  by (cases op)
     (simp_all add: startMasterRecovery_frame recoveryFinished_frame
        RecoveryMasterFinishedTask_frame ApplyTrackerChanges_frame
        recoveryMasterFinished_def trackerChangesEnqueued_def emit_def Let_def
        EnqueueMasterRecoveryTask_performTask_def)

lemma destroyAndFreeRecovery_active:
  "activeRecoveries (destroyAndFreeRecovery recovery mgr)
     = AList.delete (recoveryId recovery) (activeRecoveries mgr)"
  by (simp add: destroyAndFreeRecovery_def emit_def Let_def)

lemma maybeStart_loop_rule:
  assumes "P st" and "\<And>st. P st \<Longrightarrow> maybeStart_cond (fst st) \<Longrightarrow> P (maybeStart_body st)"
  shows "P (maybeStart_loop st)"
  using assms(1)
proof (induction st rule: maybeStart_loop.induct)
  case (1 st)
  show ?case
  proof (cases "maybeStart_cond (fst st)")
    case True
    with 1 assms(2) show ?thesis by (subst maybeStart_loop.simps) simp
  next
    case False
    with 1 show ?thesis by (subst maybeStart_loop.simps) simp
  qed
qed

lemma maybeStart_body_max:
  "maxActiveRecoveries (fst (maybeStart_body st)) = maxActiveRecoveries (fst st)"
  by (cases st) (auto simp: maybeStart_body_def emit_def Let_def split: list.splits)

lemma perform_max: "maxActiveRecoveries (perform op mgr) = maxActiveRecoveries mgr"
proof (cases op)
  case Run_MaybeStartRecovery
  have "maxActiveRecoveries (fst (maybeStart_loop (mgr, []))) = maxActiveRecoveries mgr"
    by (rule maybeStart_loop_rule) (simp_all add: maybeStart_body_max)
  with Run_MaybeStartRecovery show ?thesis
    by (simp add: MaybeStartRecoveryTask_fields)
qed (simp_all add: startMasterRecovery_frame recoveryFinished_frame
        RecoveryMasterFinishedTask_frame ApplyTrackerChanges_frame
        recoveryMasterFinished_def trackerChangesEnqueued_def emit_def Let_def
        EnqueueMasterRecoveryTask_performTask_def destroyAndFreeRecovery_def)

lemma length_update_le: "length (AList.update k v al) \<le> Suc (length al)"
  by (induction al) auto

lemma length_delete_le: "length (AList.delete k al) \<le> length al"
  by (simp add: AList.delete_eq)

lemma maybeStart_body_length:
  assumes "maybeStart_cond (fst st)"
  shows "length (activeRecoveries (fst (maybeStart_body st))) \<le> maxActiveRecoveries (fst st)"
proof -
  obtain m aa where st: "st = (m, aa)" by (cases st)
  from assms st obtain r rest where w: "waitingRecoveries m = r # rest"
    and lt: "length (activeRecoveries m) < maxActiveRecoveries m"
    by (cases "waitingRecoveries m") (auto simp: maybeStart_cond_def)
  show ?thesis
  proof (cases "serverAlreadyRecovering (activeRecoveries m) r")
    case True
    from maybeStart_body_defer(3) [OF w True, of aa] lt show ?thesis by (simp add: st)
  next
    case False
    from maybeStart_body_admit(3) [OF w False, of aa] lt
      length_update_le [of "recoveryId r" r "activeRecoveries m"]
    show ?thesis by (simp add: st)
  qed
qed

lemma MaybeStartRecoveryTask_length:
  "length (activeRecoveries (MaybeStartRecoveryTask_performTask mgr))
     \<le> max (length (activeRecoveries mgr)) (maxActiveRecoveries mgr)"
proof -
  let ?P = "\<lambda>st :: MasterRecoveryManager \<times> Recovery list.
                length (activeRecoveries (fst st))
                  \<le> max (length (activeRecoveries mgr)) (maxActiveRecoveries mgr)
                \<and> maxActiveRecoveries (fst st) = maxActiveRecoveries mgr"
  have "?P (maybeStart_loop (mgr, []))"
  proof (rule maybeStart_loop_rule)
    show "?P (mgr, [])" by simp
  next
    fix st assume "?P st" "maybeStart_cond (fst st)"
    with maybeStart_body_length [of st] show "?P (maybeStart_body st)"
      by (simp add: maybeStart_body_max)
  qed
  then show ?thesis by (simp add: MaybeStartRecoveryTask_fields)
qed

lemma MaybeStartRecoveryTask_full:
  assumes "maxActiveRecoveries mgr \<le> length (activeRecoveries mgr)"
  shows "activeRecoveries (MaybeStartRecoveryTask_performTask mgr) = activeRecoveries mgr"
proof -
  from assms have "\<not> maybeStart_cond mgr" by (simp add: maybeStart_cond_def)
  then have "maybeStart_loop (mgr, []) = (mgr, [])"
    by (subst maybeStart_loop.simps) simp
  then show ?thesis by (simp add: MaybeStartRecoveryTask_fields)
qed

lemma perform_length:
  "length (activeRecoveries (perform op mgr))
     \<le> max (length (activeRecoveries mgr)) (maxActiveRecoveries mgr)"
proof (cases "op = Run_MaybeStartRecovery")
  case True
  then show ?thesis by (simp add: MaybeStartRecoveryTask_length)
next
  case False
  show ?thesis
  proof (cases "\<exists>recovery. op = Do_destroyAndFreeRecovery recovery")
    case True
    then obtain recovery where "op = Do_destroyAndFreeRecovery recovery" by blast
    with length_delete_le [of "recoveryId recovery" "activeRecoveries mgr"] show ?thesis
      by (simp add: destroyAndFreeRecovery_active le_max_iff_disj)
  next
    case no: False
    with False show ?thesis by (simp add: perform_frame)
  qed
qed

lemma run_snoc: "run (ops @ [op]) mgr = perform op (run ops mgr)"
  by (simp add: run_def)

lemma run_cap:
  "length (activeRecoveries (run ops (configured cap sl tm))) \<le> cap
   \<and> maxActiveRecoveries (run ops (configured cap sl tm)) = cap"
proof (induction ops rule: rev_induct)
  case Nil
  show ?case by (simp add: run_def configured_def MasterRecoveryManager_new_def)
next
  case (snoc op ops)
  with perform_length [of op "run ops (configured cap sl tm)"] show ?case
    by (simp add: run_snoc perform_max)
qed

lemma serverAlreadyRecovering_iff:
  "serverAlreadyRecovering al r \<longleftrightarrow> crashedServerId r \<in> (\<lambda>e. crashedServerId (snd e)) ` set al"
  by (induction al) auto

lemma set_update_subset: "set (AList.update k v al) \<subseteq> insert (k, v) (set al)"
  by (induction al) auto

lemma distinct_map_update:
  "distinct (map f al) \<Longrightarrow> f (k, v) \<notin> f ` set al \<Longrightarrow> distinct (map f (AList.update k v al))"
proof (induction al)
  case Nil
  then show ?case by simp
next
  case (Cons p ps)
  show ?case
  proof (cases "fst p = k")
    case True
    with Cons.prems show ?thesis by (cases p) auto
  next
    case False
    from Cons.prems have "f p \<notin> f ` set ps" "f p \<noteq> f (k, v)" by auto
    with set_update_subset [of k v ps] have "f p \<notin> f ` set (AList.update k v ps)"
      by auto
    with Cons False show ?thesis by (cases p) auto
  qed
qed

lemma distinct_map_delete:
  "distinct (map f al) \<Longrightarrow> distinct (map f (AList.delete k al))"
  by (simp add: AList.delete_eq distinct_map_filter)

lemma notin_image_filter: "f x \<notin> f ` set xs \<longleftrightarrow> filter (\<lambda>y. f y = f x) xs = []"
proof -
  have "f x \<in> f ` set xs \<longleftrightarrow> (\<exists>y\<in>set xs. f y = f x)"
    by (metis (no_types, lifting) image_iff)
  then show ?thesis by (simp add: filter_empty_conv)
qed

lemma distinct_map_iff_filter:
  "distinct (map f xs) \<longleftrightarrow> (\<forall>c. length (filter (\<lambda>x. f x = c) xs) \<le> 1)"
proof (induction xs)
  case Nil
  show ?case by simp
next
  case (Cons x xs)
  show ?case
  proof
    assume d: "distinct (map f (x # xs))"
    then have e: "filter (\<lambda>y. f y = f x) xs = []" and r: "\<forall>c. length (filter (\<lambda>x. f x = c) xs) \<le> 1"
      using Cons notin_image_filter [of f x xs] by simp_all
    show "\<forall>c. length (filter (\<lambda>x. f x = c) (x # xs)) \<le> 1"
    proof
      fix c
      show "length (filter (\<lambda>x. f x = c) (x # xs)) \<le> 1"
        using e r by (cases "f x = c") auto
    qed
  next
    assume a: "\<forall>c. length (filter (\<lambda>x. f x = c) (x # xs)) \<le> 1"
    have "length (filter (\<lambda>y. f y = c) xs) \<le> 1" for c
      using a [rule_format, of c] by (cases "f x = c") auto
    then have "distinct (map f xs)" using Cons by simp
    moreover have "filter (\<lambda>y. f y = f x) xs = []"
      using a [rule_format, of "f x"] by simp
    ultimately show "distinct (map f (x # xs))"
      using notin_image_filter [of f x xs] by simp
  qed
qed

lemma maybeStart_body_distinct:
  assumes "distinct (map (\<lambda>e. crashedServerId (snd e)) (activeRecoveries (fst st)))"
  shows "distinct (map (\<lambda>e. crashedServerId (snd e)) (activeRecoveries (fst (maybeStart_body st))))"
proof -
  obtain m aa where st: "st = (m, aa)" by (cases st)
  show ?thesis
  proof (cases "waitingRecoveries m")
    case Nil
    with assms st show ?thesis by (simp add: maybeStart_body_def)
  next
    case (Cons r rest)
    show ?thesis
    proof (cases "serverAlreadyRecovering (activeRecoveries m) r")
      case True
      from maybeStart_body_defer(3) [OF Cons True, of aa] assms st show ?thesis by simp
    next
      case False
      then have "(\<lambda>e. crashedServerId (snd e)) (recoveryId r, r)
                   \<notin> (\<lambda>e. crashedServerId (snd e)) ` set (activeRecoveries m)"
        by (simp add: serverAlreadyRecovering_iff)
      with assms st
      have "distinct (map (\<lambda>e. crashedServerId (snd e))
                       (AList.update (recoveryId r) r (activeRecoveries m)))"
        by (intro distinct_map_update) simp_all
      with maybeStart_body_admit(3) [OF Cons False, of aa] st show ?thesis by simp
    qed
  qed
qed

lemma perform_distinct:
  assumes "distinct (map (\<lambda>e. crashedServerId (snd e)) (activeRecoveries mgr))"
  shows "distinct (map (\<lambda>e. crashedServerId (snd e)) (activeRecoveries (perform op mgr)))"
proof (cases "op = Run_MaybeStartRecovery")
  case True
  have "distinct (map (\<lambda>e. crashedServerId (snd e))
                   (activeRecoveries (fst (maybeStart_loop (mgr, [])))))"
    by (rule maybeStart_loop_rule) (simp_all add: assms maybeStart_body_distinct)
  with True show ?thesis by (simp add: MaybeStartRecoveryTask_fields)
next
  case False
  show ?thesis
  proof (cases "\<exists>recovery. op = Do_destroyAndFreeRecovery recovery")
    case True
    then obtain recovery where "op = Do_destroyAndFreeRecovery recovery" by blast
    with assms show ?thesis
      by (simp add: destroyAndFreeRecovery_active distinct_map_delete)
  next
    case no: False
    with False assms show ?thesis by (simp add: perform_frame)
  qed
qed

lemma run_distinct:
  "distinct (map (\<lambda>e. crashedServerId (snd e)) (activeRecoveries (run ops (configured cap sl tm))))"
proof (induction ops rule: rev_induct)
  case Nil
  show ?case by (simp add: run_def configured_def MasterRecoveryManager_new_def)
next
  case (snoc op ops)
  then show ?case by (simp add: run_snoc perform_distinct)
qed

lemma unique_iff_distinct:
  "(\<forall>c. length (activeFor mgr c) \<le> 1)
     \<longleftrightarrow> distinct (map (\<lambda>e. crashedServerId (snd e)) (activeRecoveries mgr))"
  by (simp add: activeFor_def distinct_map_iff_filter)

lemma distinct_map_nth_notin_take_le:
  assumes "distinct (map f xs)" "i \<le> j" "j < length xs"
  shows "f (xs ! j) \<notin> f ` set (take i xs)"
proof -
  from assms(2) have "set (take i xs) \<subseteq> set (take j xs)"
    by (rule set_take_subset_set_take)
  with distinct_map_nth_notin_take [OF assms(1,3)] show ?thesis by blast
qed

lemma maybeStart_state_active_grows:
  assumes wf: "recoveryIds_unique mgr"
  shows "(\<forall>j<i. maybeStart_cond (fst (maybeStart_state mgr j))) \<Longrightarrow>
         set (activeRecoveries mgr) \<subseteq> set (activeRecoveries (fst (maybeStart_state mgr i)))"
proof (induction i)
  case 0
  show ?case by (simp add: maybeStart_state_0)
next
  case (Suc i)
  let ?w = "waitingRecoveries mgr"
  let ?m = "fst (maybeStart_state mgr i)"
  let ?aa = "snd (maybeStart_state mgr i)"
  let ?r = "?w ! i"
  from Suc.prems have conds: "\<forall>j<i. maybeStart_cond (fst (maybeStart_state mgr j))"
    and cond: "maybeStart_cond ?m"
    by simp_all
  note IH = Suc.IH [OF conds]
  from maybeStart_state_inv [OF wf conds]
  have wq: "waitingRecoveries ?m = drop i ?w"
    and untouched: "\<forall>k. k \<notin> recoveryId ` set (take i ?w) \<longrightarrow>
          map_of (activeRecoveries ?m) k = map_of (activeRecoveries mgr) k"
    by blast+
  from cond wq have i: "i < length ?w"
    by (simp add: maybeStart_cond_def)
  then have front: "waitingRecoveries ?m = ?r # drop (Suc i) ?w"
    by (simp add: wq Cons_nth_drop_Suc)
  from wf have dist: "distinct (map recoveryId ?w)"
    and fresh: "\<forall>r\<in>set ?w. map_of (activeRecoveries mgr) (recoveryId r) = None"
    by (simp_all add: recoveryIds_unique_def list_all_iff)
  have "recoveryId ?r \<notin> recoveryId ` set (take i ?w)"
    using dist i by (rule distinct_map_nth_notin_take)
  with untouched fresh i have none: "map_of (activeRecoveries ?m) (recoveryId ?r) = None"
    by simp
  have st: "maybeStart_state mgr (Suc i) = maybeStart_body (?m, ?aa)"
    by (simp add: maybeStart_state_Suc)
  show ?case
  proof (cases "serverAlreadyRecovering (activeRecoveries ?m) ?r")
    case True
    from maybeStart_body_defer(3) [OF front True, of ?aa, folded st] IH show ?thesis by simp
  next
    case False
    from maybeStart_body_admit(3) [OF front False, of ?aa, folded st] IH none show ?thesis
      by (auto simp: update_fresh)
  qed
qed

lemma maybeStart_fate:
  assumes wf: "recoveryIds_unique mgr" and r: "r \<in> set (waitingRecoveries mgr)"
  shows "(map_of (activeRecoveries (MaybeStartRecoveryTask_performTask mgr)) (recoveryId r) = None
          \<and> r \<in> set (waitingRecoveries (MaybeStartRecoveryTask_performTask mgr)))
       \<or> (map_of (activeRecoveries (MaybeStartRecoveryTask_performTask mgr)) (recoveryId r) = Some r
          \<and> \<not> serverAlreadyRecovering (activeRecoveries mgr) r)"
proof -
  let ?w = "waitingRecoveries mgr"
  let ?mgr' = "MaybeStartRecoveryTask_performTask mgr"
  from maybeStart_run [of mgr] obtain n where
    run: "maybeStart_loop (mgr, []) = maybeStart_state mgr n"
    and conds: "\<forall>i<n. maybeStart_cond (fst (maybeStart_state mgr i))"
    by blast
  let ?m = "fst (maybeStart_state mgr n)"
  from maybeStart_state_inv [OF wf conds]
  have n: "n \<le> length ?w" and wq: "waitingRecoveries ?m = drop n ?w"
    and aa: "snd (maybeStart_state mgr n)
       = filter (\<lambda>r. map_of (activeRecoveries ?m) (recoveryId r) = None) (take n ?w)"
    and untouched: "\<forall>k. k \<notin> recoveryId ` set (take n ?w) \<longrightarrow>
          map_of (activeRecoveries ?m) k = map_of (activeRecoveries mgr) k"
    and decided: "\<forall>j<n. if serverAlreadyRecovering (activeRecoveries (fst (maybeStart_state mgr j))) (?w ! j)
              then map_of (activeRecoveries ?m) (recoveryId (?w ! j)) = None
              else map_of (activeRecoveries ?m) (recoveryId (?w ! j)) = Some (?w ! j)
                 \<and> RecoveryTask (?w ! j) \<in> set (taskQueue ?m)"
    by blast+
  have A: "activeRecoveries ?mgr' = activeRecoveries ?m"
    and W: "waitingRecoveries ?mgr'
        = drop n ?w @ filter (\<lambda>r. map_of (activeRecoveries ?m) (recoveryId r) = None) (take n ?w)"
    by (simp_all add: MaybeStartRecoveryTask_fields run wq aa)
  from wf have dist: "distinct (map recoveryId ?w)"
    and fresh: "\<forall>r\<in>set ?w. map_of (activeRecoveries mgr) (recoveryId r) = None"
    by (simp_all add: recoveryIds_unique_def list_all_iff)
  from r obtain j where j: "j < length ?w" "r = ?w ! j"
    by (auto simp: in_set_conv_nth)
  show ?thesis
  proof (cases "j < n")
    case True
    then have taken: "r \<in> set (take n ?w)"
      using j n by (auto simp: in_set_conv_nth intro!: exI [of _ j])
    show ?thesis
    proof (cases "serverAlreadyRecovering (activeRecoveries (fst (maybeStart_state mgr j))) r")
      case sar: True
      with decided True j have "map_of (activeRecoveries ?m) (recoveryId r) = None" by auto
      with taken show ?thesis by (simp add: A W)
    next
      case sar: False
      with decided True j have "map_of (activeRecoveries ?m) (recoveryId r) = Some r" by auto
      moreover
      from conds True have "\<forall>i<j. maybeStart_cond (fst (maybeStart_state mgr i))" by simp
      from maybeStart_state_active_grows [OF wf this] sar
      have "\<not> serverAlreadyRecovering (activeRecoveries mgr) r"
        by (auto simp: serverAlreadyRecovering_iff)
      ultimately show ?thesis by (simp add: A)
    qed
  next
    case False
    then have "n \<le> j" by simp
    with j have "r \<in> set (drop n ?w)"
      by (auto simp: in_set_conv_nth intro!: exI [of _ "j - n"])
    moreover
    from dist \<open>n \<le> j\<close> j(1) have "recoveryId (?w ! j) \<notin> recoveryId ` set (take n ?w)"
      by (rule distinct_map_nth_notin_take_le)
    with untouched fresh r j have "map_of (activeRecoveries ?m) (recoveryId r) = None"
      by simp
    ultimately show ?thesis by (simp add: A W)
  qed
qed

text \<open>
  C2. After any run of a new manager, at most one active recovery has a given crashed
  server id. Every operation keeps this, admission included. In particular, on a manager
  whose recovery ids are unique, a waiting recovery whose crashed server is the crashed
  server of an active recovery is not admitted by the admission task: it is not in the
  active set afterwards and it is still on the waiting queue.
\<close>

theorem activeRecoveries_one_per_crashedServerId:
  "(\<forall>c. length (activeFor (run ops (configured cap sl tm)) c) \<le> 1)
   \<and> ((\<forall>c. length (activeFor mgr c) \<le> 1) \<longrightarrow>
        (\<forall>c. length (activeFor (perform op mgr) c) \<le> 1))
   \<and> (recoveryIds_unique mgr \<longrightarrow>
        (\<forall>r\<in>set (waitingRecoveries mgr).
           serverAlreadyRecovering (activeRecoveries mgr) r \<longrightarrow>
             map_of (activeRecoveries (MaybeStartRecoveryTask_performTask mgr)) (recoveryId r)
               = None
           \<and> r \<in> set (waitingRecoveries (MaybeStartRecoveryTask_performTask mgr))))"
proof (intro conjI impI ballI)
  show "\<forall>c. length (activeFor (run ops (configured cap sl tm)) c) \<le> 1"
    unfolding unique_iff_distinct by (rule run_distinct)
next
  assume "\<forall>c. length (activeFor mgr c) \<le> 1"
  then show "\<forall>c. length (activeFor (perform op mgr) c) \<le> 1"
    unfolding unique_iff_distinct by (rule perform_distinct)
next
  fix r
  assume "recoveryIds_unique mgr" "r \<in> set (waitingRecoveries mgr)"
    and "serverAlreadyRecovering (activeRecoveries mgr) r"
  with maybeStart_fate [of mgr r]
  show "map_of (activeRecoveries (MaybeStartRecoveryTask_performTask mgr)) (recoveryId r) = None"
    and "r \<in> set (waitingRecoveries (MaybeStartRecoveryTask_performTask mgr))"
    by auto
qed

theorem activeRecoveries_one_per_crashedServerId_witness:
  "activeFor (run example_ops (configured 3 example_serverList example_tabletMap)) 10
     = [(1, example_recA)]
   \<and> length (activeFor (run example_ops (configured 3 example_serverList example_tabletMap)) 10)
       \<le> 1
   \<and> recoveryIds_unique example_mgr_blocked
   \<and> serverAlreadyRecovering (activeRecoveries example_mgr_blocked) example_recB
   \<and> map_of (activeRecoveries (MaybeStartRecoveryTask_performTask example_mgr_blocked)) 2 = None
   \<and> waitingRecoveries (MaybeStartRecoveryTask_performTask example_mgr_blocked) = [example_recB]"
proof -
  have "activeFor (run example_ops (configured 3 example_serverList example_tabletMap)) 10
     = [(1, example_recA)]"
    "recoveryIds_unique example_mgr_blocked"
    "serverAlreadyRecovering (activeRecoveries example_mgr_blocked) example_recB"
    "map_of (activeRecoveries (MaybeStartRecoveryTask_performTask example_mgr_blocked)) 2 = None"
    "waitingRecoveries (MaybeStartRecoveryTask_performTask example_mgr_blocked) = [example_recB]"
    by code_simp+
  with activeRecoveries_one_per_crashedServerId
         [of example_ops 3 example_serverList example_tabletMap example_mgr_blocked
             Run_MaybeStartRecovery]
  show ?thesis by simp
qed

text \<open>
  C3. After any run of a new manager configured with any cap, the active set has at most
  \<^verbatim>\<open>maxActiveRecoveries\<close> entries (and the cap is still the configured one). No operation
  other than the admission task makes the active set longer; the admission task never
  takes it above the cap, and once the set has reached the cap the task inserts nothing.
\<close>

theorem activeRecoveries_within_cap:
  "length (activeRecoveries (run ops (configured cap sl tm))) \<le> cap
   \<and> maxActiveRecoveries (run ops (configured cap sl tm)) = cap
   \<and> (op \<noteq> Run_MaybeStartRecovery \<longrightarrow>
        length (activeRecoveries (perform op mgr)) \<le> length (activeRecoveries mgr))
   \<and> length (activeRecoveries (MaybeStartRecoveryTask_performTask mgr))
       \<le> max (length (activeRecoveries mgr)) (maxActiveRecoveries mgr)
   \<and> (maxActiveRecoveries mgr \<le> length (activeRecoveries mgr) \<longrightarrow>
        activeRecoveries (MaybeStartRecoveryTask_performTask mgr) = activeRecoveries mgr)"
proof (intro conjI impI)
  show "length (activeRecoveries (run ops (configured cap sl tm))) \<le> cap"
    and "maxActiveRecoveries (run ops (configured cap sl tm)) = cap"
    using run_cap [of ops cap sl tm] by simp_all
next
  assume op: "op \<noteq> Run_MaybeStartRecovery"
  show "length (activeRecoveries (perform op mgr)) \<le> length (activeRecoveries mgr)"
  proof (cases "\<exists>recovery. op = Do_destroyAndFreeRecovery recovery")
    case True
    then obtain recovery where "op = Do_destroyAndFreeRecovery recovery" by blast
    then show ?thesis by (simp add: destroyAndFreeRecovery_active length_delete_le)
  next
    case False
    with op show ?thesis by (simp add: perform_frame)
  qed
next
  show "length (activeRecoveries (MaybeStartRecoveryTask_performTask mgr))
       \<le> max (length (activeRecoveries mgr)) (maxActiveRecoveries mgr)"
    by (rule MaybeStartRecoveryTask_length)
next
  assume "maxActiveRecoveries mgr \<le> length (activeRecoveries mgr)"
  then show "activeRecoveries (MaybeStartRecoveryTask_performTask mgr) = activeRecoveries mgr"
    by (rule MaybeStartRecoveryTask_full)
qed

theorem activeRecoveries_within_cap_witness:
  "activeRecoveries (run example_ops (configured 2 example_serverList example_tabletMap))
     = [(1, example_recA), (3, example_recC)]
   \<and> waitingRecoveries (run example_ops (configured 2 example_serverList example_tabletMap))
     = [example_recD, example_recB]
   \<and> length (activeRecoveries (run example_ops (configured 2 example_serverList example_tabletMap)))
       \<le> 2
   \<and> Do_destroyAndFreeRecovery example_recA \<noteq> Run_MaybeStartRecovery
   \<and> length (activeRecoveries (perform (Do_destroyAndFreeRecovery example_recA) example_mgr_active))
       \<le> length (activeRecoveries example_mgr_active)
   \<and> maxActiveRecoveries example_mgr_active \<le> length (activeRecoveries example_mgr_active)
   \<and> activeRecoveries (MaybeStartRecoveryTask_performTask example_mgr_active)
       = activeRecoveries example_mgr_active"
proof -
  have "activeRecoveries (run example_ops (configured 2 example_serverList example_tabletMap))
     = [(1, example_recA), (3, example_recC)]"
    "waitingRecoveries (run example_ops (configured 2 example_serverList example_tabletMap))
     = [example_recD, example_recB]"
    "maxActiveRecoveries example_mgr_active \<le> length (activeRecoveries example_mgr_active)"
    by code_simp+
  with activeRecoveries_within_cap
         [of example_ops 2 example_serverList example_tabletMap
             "Do_destroyAndFreeRecovery example_recA" example_mgr_active]
  show ?thesis by simp
qed

subsection \<open>The active entry of a finished recovery\<close>

lemma MaybeStartRecoveryTask_keeps_active:
  assumes wf: "recoveryIds_unique mgr" and k: "map_of (activeRecoveries mgr) k = Some r"
  shows "map_of (activeRecoveries (MaybeStartRecoveryTask_performTask mgr)) k = Some r"
proof -
  from maybeStart_run [of mgr] obtain n where
    run: "maybeStart_loop (mgr, []) = maybeStart_state mgr n"
    and conds: "\<forall>i<n. maybeStart_cond (fst (maybeStart_state mgr i))"
    by blast
  from maybeStart_state_inv [OF wf conds]
  have untouched: "\<forall>k. k \<notin> recoveryId ` set (take n (waitingRecoveries mgr)) \<longrightarrow>
          map_of (activeRecoveries (fst (maybeStart_state mgr n))) k
            = map_of (activeRecoveries mgr) k"
    by blast
  from wf have "\<forall>r\<in>set (waitingRecoveries mgr). map_of (activeRecoveries mgr) (recoveryId r) = None"
    by (simp add: recoveryIds_unique_def list_all_iff)
  with k have "k \<notin> recoveryId ` set (take n (waitingRecoveries mgr))"
    by (auto dest: in_set_takeD)
  with untouched k show ?thesis
    by (simp add: MaybeStartRecoveryTask_fields run)
qed

text \<open>
  C9. \<^verbatim>\<open>recoveryFinished\<close> leaves \<^verbatim>\<open>activeRecoveries\<close> as it is, in both branches.
  \<^verbatim>\<open>destroyAndFreeRecovery\<close> erases the entry under the recovery's id and frees the
  Recovery, and nothing else removes an entry: every operation other than it and the
  admission task leaves the active set as it is, and the admission task keeps every
  entry (recovery ids being unique). In between, in any state whose active set still
  holds the finished recovery under its id, whatever else is active, the admission task
  admits no waiting recovery for the same crashed server: such a recovery stays on the
  waiting queue and out of the active set, and the finished recovery stays active.
\<close>

theorem recoveryFinished_keeps_active_entry:
  "activeRecoveries (recoveryFinished recovery ok mgr) = activeRecoveries mgr
   \<and> activeRecoveries (destroyAndFreeRecovery recovery mgr)
       = AList.delete (recoveryId recovery) (activeRecoveries mgr)
   \<and> map_of (activeRecoveries (destroyAndFreeRecovery recovery mgr)) (recoveryId recovery) = None
   \<and> trace (destroyAndFreeRecovery recovery mgr)
       = trace mgr
         @ [LOG NOTICE ''Recovery of server %lu done (now %lu active recoveries)''
              [crashedServerId recovery,
               of_nat (length (AList.delete (recoveryId recovery) (activeRecoveries mgr)))],
            Delete_Recovery recovery]
   \<and> (op \<noteq> Run_MaybeStartRecovery \<and> (\<forall>recovery'. op \<noteq> Do_destroyAndFreeRecovery recovery') \<longrightarrow>
        activeRecoveries (perform op mgr) = activeRecoveries mgr)
   \<and> (recoveryIds_unique mgr \<and> map_of (activeRecoveries mgr) k = Some r \<longrightarrow>
        map_of (activeRecoveries (MaybeStartRecoveryTask_performTask mgr)) k = Some r)
   \<and> (map_of (activeRecoveries mgr) (recoveryId recovery) = Some recovery \<longrightarrow>
        map_of (activeRecoveries (recoveryFinished recovery ok mgr)) (recoveryId recovery)
          = Some recovery)
   \<and> (\<forall>mgr2 r2.
         map_of (activeRecoveries mgr2) (recoveryId recovery) = Some recovery
         \<and> recoveryIds_unique mgr2 \<and> r2 \<in> set (waitingRecoveries mgr2)
         \<and> crashedServerId r2 = crashedServerId recovery \<longrightarrow>
           map_of (activeRecoveries (MaybeStartRecoveryTask_performTask mgr2)) (recoveryId r2)
             = None
         \<and> r2 \<in> set (waitingRecoveries (MaybeStartRecoveryTask_performTask mgr2))
         \<and> map_of (activeRecoveries (MaybeStartRecoveryTask_performTask mgr2))
               (recoveryId recovery) = Some recovery)"
proof (intro conjI impI allI)
  show "activeRecoveries (recoveryFinished recovery ok mgr) = activeRecoveries mgr"
    by (simp add: recoveryFinished_frame)
  show "activeRecoveries (destroyAndFreeRecovery recovery mgr)
       = AList.delete (recoveryId recovery) (activeRecoveries mgr)"
    by (rule destroyAndFreeRecovery_active)
  show "map_of (activeRecoveries (destroyAndFreeRecovery recovery mgr)) (recoveryId recovery) = None"
    by (simp add: destroyAndFreeRecovery_active delete_conv')
  show "trace (destroyAndFreeRecovery recovery mgr)
       = trace mgr
         @ [LOG NOTICE ''Recovery of server %lu done (now %lu active recoveries)''
              [crashedServerId recovery,
               of_nat (length (AList.delete (recoveryId recovery) (activeRecoveries mgr)))],
            Delete_Recovery recovery]"
    by (simp add: destroyAndFreeRecovery_def emit_def Let_def)
next
  assume "op \<noteq> Run_MaybeStartRecovery \<and> (\<forall>recovery'. op \<noteq> Do_destroyAndFreeRecovery recovery')"
  then show "activeRecoveries (perform op mgr) = activeRecoveries mgr"
    by (simp add: perform_frame)
next
  assume "recoveryIds_unique mgr \<and> map_of (activeRecoveries mgr) k = Some r"
  then show "map_of (activeRecoveries (MaybeStartRecoveryTask_performTask mgr)) k = Some r"
    by (simp add: MaybeStartRecoveryTask_keeps_active)
next
  assume "map_of (activeRecoveries mgr) (recoveryId recovery) = Some recovery"
  then show "map_of (activeRecoveries (recoveryFinished recovery ok mgr)) (recoveryId recovery)
          = Some recovery"
    by (simp add: recoveryFinished_frame)
next
  fix mgr2 r2
  assume 2: "map_of (activeRecoveries mgr2) (recoveryId recovery) = Some recovery
         \<and> recoveryIds_unique mgr2 \<and> r2 \<in> set (waitingRecoveries mgr2)
         \<and> crashedServerId r2 = crashedServerId recovery"
  then have "(recoveryId recovery, recovery) \<in> set (activeRecoveries mgr2)"
    by (auto dest: map_of_SomeD)
  with 2 have "serverAlreadyRecovering (activeRecoveries mgr2) r2"
    by (force simp: serverAlreadyRecovering_iff)
  with maybeStart_fate [of mgr2 r2] 2
  show "map_of (activeRecoveries (MaybeStartRecoveryTask_performTask mgr2)) (recoveryId r2) = None"
    and "r2 \<in> set (waitingRecoveries (MaybeStartRecoveryTask_performTask mgr2))"
    by auto
  from 2 show "map_of (activeRecoveries (MaybeStartRecoveryTask_performTask mgr2))
               (recoveryId recovery) = Some recovery"
    by (simp add: MaybeStartRecoveryTask_keeps_active)
qed

theorem recoveryFinished_keeps_active_entry_witness:
  "map_of (activeRecoveries (example_mgr_active\<lparr>maxActiveRecoveries := 2\<rparr>)) 1 = Some example_recA
   \<and> activeRecoveries (recoveryFinished example_recA False
        (example_mgr_active\<lparr>maxActiveRecoveries := 2\<rparr>)) = [(1, example_recA)]
   \<and> taskQueue (recoveryFinished example_recA False
        (example_mgr_active\<lparr>maxActiveRecoveries := 2\<rparr>))
       = [EnqueueMasterRecoveryTask example_retry 4]
   \<and> recoveryIds_unique (EnqueueMasterRecoveryTask_performTask example_retry
        (recoveryFinished example_recA False (example_mgr_active\<lparr>maxActiveRecoveries := 2\<rparr>)))
   \<and> waitingRecoveries (MaybeStartRecoveryTask_performTask
        (EnqueueMasterRecoveryTask_performTask example_retry
          (recoveryFinished example_recA False (example_mgr_active\<lparr>maxActiveRecoveries := 2\<rparr>))))
       = [example_retry]
   \<and> activeRecoveries (MaybeStartRecoveryTask_performTask
        (EnqueueMasterRecoveryTask_performTask example_retry
          (recoveryFinished example_recA False (example_mgr_active\<lparr>maxActiveRecoveries := 2\<rparr>))))
       = [(1, example_recA)]
   \<and> activeRecoveries (MaybeStartRecoveryTask_performTask (destroyAndFreeRecovery example_recA
        (MaybeStartRecoveryTask_performTask
          (EnqueueMasterRecoveryTask_performTask example_retry
            (recoveryFinished example_recA False
              (example_mgr_active\<lparr>maxActiveRecoveries := 2\<rparr>))))))
       = [(0, example_retry)]
   \<and> map_of (activeRecoveries example_mgr_between) 1 = Some example_recA
   \<and> recoveryIds_unique example_mgr_between
   \<and> waitingRecoveries (MaybeStartRecoveryTask_performTask example_mgr_between)
       = [example_retry]
   \<and> activeRecoveries (MaybeStartRecoveryTask_performTask example_mgr_between)
       = [(1, example_recA), (3, example_recC)]"
proof -
  let ?mgr = "example_mgr_active\<lparr>maxActiveRecoveries := 2\<rparr>"
  let ?mgr2 = "EnqueueMasterRecoveryTask_performTask example_retry
                 (recoveryFinished example_recA False ?mgr)"
  have "map_of (activeRecoveries ?mgr) 1 = Some example_recA"
    "activeRecoveries (recoveryFinished example_recA False ?mgr) = [(1, example_recA)]"
    "taskQueue (recoveryFinished example_recA False ?mgr)
       = [EnqueueMasterRecoveryTask example_retry 4]"
    "recoveryIds_unique ?mgr2"
    "waitingRecoveries (MaybeStartRecoveryTask_performTask ?mgr2) = [example_retry]"
    "activeRecoveries (MaybeStartRecoveryTask_performTask ?mgr2) = [(1, example_recA)]"
    "activeRecoveries (MaybeStartRecoveryTask_performTask (destroyAndFreeRecovery example_recA
        (MaybeStartRecoveryTask_performTask ?mgr2))) = [(0, example_retry)]"
    "map_of (activeRecoveries example_mgr_between) 1 = Some example_recA"
    "recoveryIds_unique example_mgr_between"
    "waitingRecoveries (MaybeStartRecoveryTask_performTask example_mgr_between)
       = [example_retry]"
    "activeRecoveries (MaybeStartRecoveryTask_performTask example_mgr_between)
       = [(1, example_recA), (3, example_recC)]"
    by code_simp+
  with recoveryFinished_keeps_active_entry
         [where recovery = example_recA and ok = False and mgr = ?mgr
            and op = Do_trackerChangesEnqueued and k = 1 and r = example_recA]
  show ?thesis by simp
qed

subsection \<open>Changes of the membership\<close>

lemma changesApplied_0:
  "changesApplied mgr 0 = mgr\<lparr>tracker := (tracker mgr)\<lparr>changes := []\<rparr>\<rparr>"
  by (simp add: changesApplied_def ApplyTrackerChanges_empty)

lemma changesApplied_Suc_added:
  assumes "changes (tracker mgr) = (server, SERVER_ADDED) # rest"
  shows "changesApplied mgr (Suc i)
           = changesApplied (mgr\<lparr>tracker := (tracker mgr)\<lparr>changes := rest\<rparr>\<rparr>) i"
  using assms
  by (simp add: changesApplied_def
        ApplyTrackerChanges_added [where server = server and rest = "take i rest"])

lemma Recovery_recoveryMasterFinished_changes:
  "(Recovery_recoveryMasterFinished recovery sid ok mgr)\<lparr>tracker :=
      (tracker (Recovery_recoveryMasterFinished recovery sid ok mgr))\<lparr>changes := cs\<rparr>\<rparr>
   = Recovery_recoveryMasterFinished recovery sid ok
       (mgr\<lparr>tracker := (tracker mgr)\<lparr>changes := cs\<rparr>\<rparr>)"
  by (simp add: Recovery_recoveryMasterFinished_def emit_def)

lemma changesApplied_Suc_claimed:
  assumes "changes (tracker mgr) = (server, event) # rest" "event \<noteq> SERVER_ADDED"
    "map_of (slots (tracker mgr)) (serverId server) = Some recovery"
  shows "changesApplied mgr (Suc i)
           = changesApplied (Recovery_recoveryMasterFinished recovery (serverId server) False
               (mgr\<lparr>tracker := (tracker mgr)\<lparr>changes := rest\<rparr>\<rparr>)) i"
proof -
  let ?cut = "mgr\<lparr>tracker := (tracker mgr)\<lparr>changes := take (Suc i) (changes (tracker mgr))\<rparr>\<rparr>"
  have "changes (tracker ?cut) = (server, event) # take i rest"
    and "map_of (slots (tracker ?cut)) (serverId server) = Some recovery"
    using assms by simp_all
  from ApplyTrackerChanges_claimed [OF this(1) assms(2) this(2)]
  have "changesApplied mgr (Suc i)
          = ApplyTrackerChangesTask_performTask
              (Recovery_recoveryMasterFinished recovery (serverId server) False
                 (mgr\<lparr>tracker := (tracker mgr)\<lparr>changes := take i rest\<rparr>\<rparr>))"
    by (simp add: changesApplied_def)
  also have "\<dots> = changesApplied (Recovery_recoveryMasterFinished recovery (serverId server) False
               (mgr\<lparr>tracker := (tracker mgr)\<lparr>changes := rest\<rparr>\<rparr>)) i"
    unfolding changesApplied_def
    by (subst Recovery_recoveryMasterFinished_changes)
       (simp add: Recovery_recoveryMasterFinished_def emit_def)
  finally show ?thesis .
qed

lemma ApplyTrackerChanges_drain:
  "changes (tracker mgr) = evs \<Longrightarrow>
   \<exists>n\<le>length evs.
      (\<forall>i<n. (snd (evs ! i) = SERVER_ADDED \<longrightarrow> changesApplied mgr (Suc i) = changesApplied mgr i)
           \<and> (snd (evs ! i) \<noteq> SERVER_ADDED \<longrightarrow>
                (\<exists>recovery.
                   map_of (slots (tracker (changesApplied mgr i))) (serverId (fst (evs ! i)))
                     = Some recovery
                 \<and> changesApplied mgr (Suc i)
                     = Recovery_recoveryMasterFinished recovery (serverId (fst (evs ! i))) False
                         (changesApplied mgr i))))
    \<and> (n < length evs \<longrightarrow>
          snd (evs ! n) \<noteq> SERVER_ADDED
        \<and> map_of (slots (tracker (changesApplied mgr n))) (serverId (fst (evs ! n))) = None)
    \<and> ApplyTrackerChangesTask_performTask mgr
        = (changesApplied mgr n)\<lparr>tracker :=
             (tracker (changesApplied mgr n))\<lparr>changes := drop (Suc n) evs\<rparr>\<rparr>"
proof (induction evs arbitrary: mgr)
  case Nil
  then show ?case
    by (simp add: changesApplied_0 ApplyTrackerChanges_empty)
next
  case (Cons ev rest)
  obtain server event where ev: "ev = (server, event)" by (cases ev)
  let ?mgr1 = "mgr\<lparr>tracker := (tracker mgr)\<lparr>changes := rest\<rparr>\<rparr>"
  let ?Q = "\<lambda>m es n.
      (\<forall>i<n. (snd (es ! i) = SERVER_ADDED \<longrightarrow> changesApplied m (Suc i) = changesApplied m i)
           \<and> (snd (es ! i) \<noteq> SERVER_ADDED \<longrightarrow>
                (\<exists>recovery.
                   map_of (slots (tracker (changesApplied m i))) (serverId (fst (es ! i)))
                     = Some recovery
                 \<and> changesApplied m (Suc i)
                     = Recovery_recoveryMasterFinished recovery (serverId (fst (es ! i))) False
                         (changesApplied m i))))
    \<and> (n < length es \<longrightarrow>
          snd (es ! n) \<noteq> SERVER_ADDED
        \<and> map_of (slots (tracker (changesApplied m n))) (serverId (fst (es ! n))) = None)
    \<and> ApplyTrackerChangesTask_performTask m
        = (changesApplied m n)\<lparr>tracker :=
             (tracker (changesApplied m n))\<lparr>changes := drop (Suc n) es\<rparr>\<rparr>"
  have next_step: "?Q mgr (ev # rest) (Suc n)"
    if shift: "\<And>i. changesApplied mgr (Suc i) = changesApplied nxt i"
      and run: "ApplyTrackerChangesTask_performTask mgr = ApplyTrackerChangesTask_performTask nxt"
      and first: "(event = SERVER_ADDED \<longrightarrow> changesApplied nxt 0 = changesApplied mgr 0)
                \<and> (event \<noteq> SERVER_ADDED \<longrightarrow>
                    (\<exists>recovery. map_of (slots (tracker (changesApplied mgr 0))) (serverId server)
                        = Some recovery
                      \<and> changesApplied nxt 0
                        = Recovery_recoveryMasterFinished recovery (serverId server) False
                            (changesApplied mgr 0)))"
      and IH: "?Q nxt rest n"
    for nxt n
  proof (intro conjI allI impI)
    fix i assume i: "i < Suc n" and added: "snd ((ev # rest) ! i) = SERVER_ADDED"
    show "changesApplied mgr (Suc i) = changesApplied mgr i"
    proof (cases i)
      case 0
      with added ev first shift [of 0] show ?thesis by simp
    next
      case (Suc j)
      with i added IH show ?thesis by (simp add: shift)
    qed
  next
    fix i assume i: "i < Suc n" and cr: "snd ((ev # rest) ! i) \<noteq> SERVER_ADDED"
    show "\<exists>recovery.
            map_of (slots (tracker (changesApplied mgr i))) (serverId (fst ((ev # rest) ! i)))
              = Some recovery
          \<and> changesApplied mgr (Suc i)
              = Recovery_recoveryMasterFinished recovery (serverId (fst ((ev # rest) ! i)))
                  False (changesApplied mgr i)"
    proof (cases i)
      case 0
      with cr ev first shift [of 0] show ?thesis by simp
    next
      case (Suc j)
      with i cr IH show ?thesis by (simp add: shift)
    qed
  next
    assume "Suc n < length (ev # rest)"
    with IH show "snd ((ev # rest) ! Suc n) \<noteq> SERVER_ADDED"
      and "map_of (slots (tracker (changesApplied mgr (Suc n))))
             (serverId (fst ((ev # rest) ! Suc n))) = None"
      by (simp_all add: shift)
  next
    from IH show "ApplyTrackerChangesTask_performTask mgr
        = (changesApplied mgr (Suc n))\<lparr>tracker :=
             (tracker (changesApplied mgr (Suc n)))\<lparr>changes := drop (Suc (Suc n)) (ev # rest)\<rparr>\<rparr>"
      by (simp add: run shift)
  qed
  from Cons.prems ev have c: "changes (tracker mgr) = (server, event) # rest"
    by simp
  show ?case
  proof (cases "event = SERVER_ADDED")
    case True
    have "changes (tracker ?mgr1) = rest" by simp
    from Cons.IH [OF this] obtain n where n: "n \<le> length rest" and IH: "?Q ?mgr1 rest n"
      by blast
    have "?Q mgr (ev # rest) (Suc n)"
    proof (rule next_step [OF _ _ _ IH])
      show "changesApplied mgr (Suc i) = changesApplied ?mgr1 i" for i
        using c True by (simp add: changesApplied_Suc_added)
      show "ApplyTrackerChangesTask_performTask mgr = ApplyTrackerChangesTask_performTask ?mgr1"
        using c True by (simp add: ApplyTrackerChanges_added)
      show "(event = SERVER_ADDED \<longrightarrow> changesApplied ?mgr1 0 = changesApplied mgr 0)
                \<and> (event \<noteq> SERVER_ADDED \<longrightarrow>
                    (\<exists>recovery. map_of (slots (tracker (changesApplied mgr 0))) (serverId server)
                        = Some recovery
                      \<and> changesApplied ?mgr1 0
                        = Recovery_recoveryMasterFinished recovery (serverId server) False
                            (changesApplied mgr 0)))"
        using True by (simp add: changesApplied_0)
    qed
    with n show ?thesis by (intro exI [of _ "Suc n"]) simp
  next
    case False
    show ?thesis
    proof (cases "map_of (slots (tracker mgr)) (serverId server)")
      case None
      with False c ev have "?Q mgr (ev # rest) 0"
        by (simp add: changesApplied_0 ApplyTrackerChanges_unclaimed [where rest = rest])
      then show ?thesis by (intro exI [of _ 0]) simp
    next
      case (Some recovery)
      let ?mgr2 = "Recovery_recoveryMasterFinished recovery (serverId server) False ?mgr1"
      have "changes (tracker ?mgr2) = rest"
        by (simp add: Recovery_recoveryMasterFinished_def emit_def)
      from Cons.IH [OF this] obtain n where n: "n \<le> length rest" and IH: "?Q ?mgr2 rest n"
        by blast
      have "?Q mgr (ev # rest) (Suc n)"
      proof (rule next_step [OF _ _ _ IH])
        show "changesApplied mgr (Suc i) = changesApplied ?mgr2 i" for i
          using c False Some by (rule changesApplied_Suc_claimed)
        show "ApplyTrackerChangesTask_performTask mgr = ApplyTrackerChangesTask_performTask ?mgr2"
          using c False Some by (rule ApplyTrackerChanges_claimed)
        show "(event = SERVER_ADDED \<longrightarrow> changesApplied ?mgr2 0 = changesApplied mgr 0)
                \<and> (event \<noteq> SERVER_ADDED \<longrightarrow>
                    (\<exists>recovery. map_of (slots (tracker (changesApplied mgr 0))) (serverId server)
                        = Some recovery
                      \<and> changesApplied ?mgr2 0
                        = Recovery_recoveryMasterFinished recovery (serverId server) False
                            (changesApplied mgr 0)))"
          using False Some
          by (simp add: changesApplied_0 Recovery_recoveryMasterFinished_changes)
      qed
      with n show ?thesis by (intro exI [of _ "Suc n"]) simp
    qed
  qed
qed

lemma ApplyTrackerChanges_others_aux:
  "changes (tracker mgr) = evs \<Longrightarrow>
   tabletMap (ApplyTrackerChangesTask_performTask mgr) = tabletMap mgr
   \<and> serverList (ApplyTrackerChangesTask_performTask mgr) = serverList mgr
   \<and> taskQueue (ApplyTrackerChangesTask_performTask mgr) = taskQueue mgr"
proof (induction evs arbitrary: mgr)
  case Nil
  then show ?case by (simp add: ApplyTrackerChanges_empty)
next
  case (Cons ev rest)
  obtain server event where ev: "ev = (server, event)" by (cases ev)
  let ?mgr1 = "mgr\<lparr>tracker := (tracker mgr)\<lparr>changes := rest\<rparr>\<rparr>"
  show ?case
  proof (cases "event = SERVER_ADDED")
    case True
    with Cons.prems ev Cons.IH [of ?mgr1] show ?thesis
      by (simp add: ApplyTrackerChanges_added)
  next
    case False
    show ?thesis
    proof (cases "map_of (slots (tracker mgr)) (serverId server)")
      case None
      with Cons.prems ev False show ?thesis
        by (simp add: ApplyTrackerChanges_unclaimed)
    next
      case (Some recovery)
      let ?mgr2 = "Recovery_recoveryMasterFinished recovery (serverId server) False ?mgr1"
      have "changes (tracker ?mgr2) = rest"
        by (simp add: Recovery_recoveryMasterFinished_def emit_def)
      from Cons.IH [OF this] Cons.prems ev False Some show ?thesis
        by (simp add: ApplyTrackerChanges_claimed [where rest = rest])
           (simp add: Recovery_recoveryMasterFinished_def emit_def)
    qed
  qed
qed

lemma map_of_slots_deleted:
  "map_of (foldl (\<lambda>s e. if snd e = SERVER_ADDED then s
                          else AList.delete (serverId (fst e)) s) sl es) k = Some v
   \<Longrightarrow> map_of sl k = Some v"
proof (induction es arbitrary: sl)
  case Nil
  then show ?case by simp
next
  case (Cons e es)
  from Cons.IH [OF Cons.prems [simplified]] show ?case
    by (auto simp: delete_conv' split: if_splits)
qed

lemma changesApplied_explicit:
  assumes chain: "\<forall>i<n.
        (snd (changes (tracker mgr) ! i) = SERVER_ADDED \<longrightarrow>
           changesApplied mgr (Suc i) = changesApplied mgr i)
      \<and> (snd (changes (tracker mgr) ! i) \<noteq> SERVER_ADDED \<longrightarrow>
           (\<exists>recovery.
              map_of (slots (tracker (changesApplied mgr i)))
                (serverId (fst (changes (tracker mgr) ! i))) = Some recovery
            \<and> changesApplied mgr (Suc i)
                = Recovery_recoveryMasterFinished recovery
                    (serverId (fst (changes (tracker mgr) ! i))) False (changesApplied mgr i)))"
    and n: "n \<le> length (changes (tracker mgr))"
  shows "i \<le> n \<Longrightarrow>
    changesApplied mgr i
      = mgr\<lparr>tracker := (tracker mgr)
               \<lparr>changes := [],
                slots := foldl (\<lambda>s e. if snd e = SERVER_ADDED then s
                                       else AList.delete (serverId (fst e)) s)
                           (slots (tracker mgr)) (take i (changes (tracker mgr)))\<rparr>,
             trace := trace mgr
               @ concat (map (\<lambda>e. if snd e = SERVER_ADDED then []
                                   else (case map_of (slots (tracker mgr)) (serverId (fst e)) of
                                           None \<Rightarrow> []
                                         | Some r \<Rightarrow>
                                             [Call_recoveryMasterFinished r (serverId (fst e))
                                                False]))
                           (take i (changes (tracker mgr))))\<rparr>"
proof (induction i)
  case 0
  show ?case by (simp add: changesApplied_0)
next
  case (Suc i)
  let ?evs = "changes (tracker mgr)"
  let ?del = "\<lambda>s e. if snd e = SERVER_ADDED then s else AList.delete (serverId (fst e)) s"
  from Suc.prems n have i: "i < n" "i < length ?evs" by simp_all
  then have tk: "take (Suc i) ?evs = take i ?evs @ [?evs ! i]"
    by (simp add: take_Suc_conv_app_nth)
  from Suc.IH i have IH: "changesApplied mgr i
      = mgr\<lparr>tracker := (tracker mgr)
               \<lparr>changes := [], slots := foldl ?del (slots (tracker mgr)) (take i ?evs)\<rparr>,
             trace := trace mgr
               @ concat (map (\<lambda>e. if snd e = SERVER_ADDED then []
                                   else (case map_of (slots (tracker mgr)) (serverId (fst e)) of
                                           None \<Rightarrow> []
                                         | Some r \<Rightarrow>
                                             [Call_recoveryMasterFinished r (serverId (fst e))
                                                False]))
                           (take i ?evs))\<rparr>"
    by simp
  show ?case
  proof (cases "snd (?evs ! i) = SERVER_ADDED")
    case True
    with chain i have "changesApplied mgr (Suc i) = changesApplied mgr i" by simp
    with True show ?thesis by (simp add: IH tk)
  next
    case False
    with chain i obtain recovery where
      slot: "map_of (slots (tracker (changesApplied mgr i))) (serverId (fst (?evs ! i)))
               = Some recovery"
      and step: "changesApplied mgr (Suc i)
                = Recovery_recoveryMasterFinished recovery (serverId (fst (?evs ! i))) False
                    (changesApplied mgr i)"
      by blast
    from slot have "map_of (foldl ?del (slots (tracker mgr)) (take i ?evs))
                      (serverId (fst (?evs ! i))) = Some recovery"
      by (simp add: IH)
    then have "map_of (slots (tracker mgr)) (serverId (fst (?evs ! i))) = Some recovery"
      by (rule map_of_slots_deleted)
    with False show ?thesis
      unfolding step
      by (simp add: IH tk Recovery_recoveryMasterFinished_def emit_def)
  qed
qed

text \<open>
  C8. The ApplyTrackerChanges task takes the buffered changes in arrival order. It
  handles the first \<open>n\<close> of them. When it comes to the \<open>i\<close>-th, the state is the one the
  task started in with the buffer taken, the slots of the crashed or removed servers
  seen so far cleared, and the calls made so far added to the trace. A SERVER_ADDED
  changes nothing; a SERVER_CRASHED or SERVER_REMOVED among the first \<open>n\<close> finds a
  Recovery in the slot of its server, the one that was there when the task started, and
  \<^verbatim>\<open>recoveryMasterFinished(serverId, false)\<close> is called on it. If changes are left, the
  next one is a crashed or removed server whose slot holds no Recovery at that moment:
  the task takes it from the buffer, does nothing for it and stops, so the changes after
  it stay buffered. The task touches neither the queues, the active set, the tablet map
  nor the server list.
\<close>

theorem ApplyTrackerChanges_drains_to_first_unclaimed:
  fixes mgr :: MasterRecoveryManager
  defines "evs \<equiv> changes (tracker mgr)"
    and "slotsAfter \<equiv> \<lambda>i. foldl (\<lambda>s e. if snd e = SERVER_ADDED then s
                                         else AList.delete (serverId (fst e)) s)
                             (slots (tracker mgr)) (take i (changes (tracker mgr)))"
    and "callsAfter \<equiv> \<lambda>i. concat (map (\<lambda>e. if snd e = SERVER_ADDED then []
                                   else (case map_of (slots (tracker mgr)) (serverId (fst e)) of
                                           None \<Rightarrow> []
                                         | Some r \<Rightarrow>
                                             [Call_recoveryMasterFinished r (serverId (fst e))
                                                False]))
                                     (take i (changes (tracker mgr))))"
  shows "\<exists>n\<le>length evs.
      (\<forall>i\<le>n. changesApplied mgr i
                = mgr\<lparr>tracker := (tracker mgr)\<lparr>changes := [], slots := slotsAfter i\<rparr>,
                       trace := trace mgr @ callsAfter i\<rparr>)
    \<and> (\<forall>i<n. (snd (evs ! i) = SERVER_ADDED \<longrightarrow> changesApplied mgr (Suc i) = changesApplied mgr i)
           \<and> (snd (evs ! i) \<noteq> SERVER_ADDED \<longrightarrow>
                (\<exists>recovery.
                   map_of (slots (tracker mgr)) (serverId (fst (evs ! i))) = Some recovery
                 \<and> map_of (slotsAfter i) (serverId (fst (evs ! i))) = Some recovery
                 \<and> map_of (slots (tracker (changesApplied mgr i))) (serverId (fst (evs ! i)))
                     = Some recovery
                 \<and> changesApplied mgr (Suc i)
                     = Recovery_recoveryMasterFinished recovery (serverId (fst (evs ! i))) False
                         (changesApplied mgr i))))
    \<and> (n < length evs \<longrightarrow>
          snd (evs ! n) \<noteq> SERVER_ADDED
        \<and> map_of (slotsAfter n) (serverId (fst (evs ! n))) = None
        \<and> map_of (slots (tracker (changesApplied mgr n))) (serverId (fst (evs ! n))) = None)
    \<and> ApplyTrackerChangesTask_performTask mgr
        = mgr\<lparr>tracker := (tracker mgr)\<lparr>changes := drop (Suc n) evs, slots := slotsAfter n\<rparr>,
               trace := trace mgr @ callsAfter n\<rparr>
    \<and> ApplyTrackerChangesTask_performTask mgr
        = (changesApplied mgr n)\<lparr>tracker :=
             (tracker (changesApplied mgr n))\<lparr>changes := drop (Suc n) evs\<rparr>\<rparr>
    \<and> waitingRecoveries (ApplyTrackerChangesTask_performTask mgr) = waitingRecoveries mgr
    \<and> activeRecoveries (ApplyTrackerChangesTask_performTask mgr) = activeRecoveries mgr
    \<and> tabletMap (ApplyTrackerChangesTask_performTask mgr) = tabletMap mgr
    \<and> serverList (ApplyTrackerChangesTask_performTask mgr) = serverList mgr
    \<and> taskQueue (ApplyTrackerChangesTask_performTask mgr) = taskQueue mgr"
proof -
  from ApplyTrackerChanges_drain [OF refl, of mgr, folded evs_def] obtain n where
    n: "n \<le> length evs"
    and chain: "\<forall>i<n.
        (snd (evs ! i) = SERVER_ADDED \<longrightarrow> changesApplied mgr (Suc i) = changesApplied mgr i)
      \<and> (snd (evs ! i) \<noteq> SERVER_ADDED \<longrightarrow>
           (\<exists>recovery.
              map_of (slots (tracker (changesApplied mgr i))) (serverId (fst (evs ! i)))
                = Some recovery
            \<and> changesApplied mgr (Suc i)
                = Recovery_recoveryMasterFinished recovery (serverId (fst (evs ! i))) False
                    (changesApplied mgr i)))"
    and stop: "n < length evs \<longrightarrow>
          snd (evs ! n) \<noteq> SERVER_ADDED
        \<and> map_of (slots (tracker (changesApplied mgr n))) (serverId (fst (evs ! n))) = None"
    and final: "ApplyTrackerChangesTask_performTask mgr
        = (changesApplied mgr n)\<lparr>tracker :=
             (tracker (changesApplied mgr n))\<lparr>changes := drop (Suc n) evs\<rparr>\<rparr>"
    by blast
  have explicit: "changesApplied mgr i
                = mgr\<lparr>tracker := (tracker mgr)\<lparr>changes := [], slots := slotsAfter i\<rparr>,
                       trace := trace mgr @ callsAfter i\<rparr>"
    if "i \<le> n" for i
    unfolding slotsAfter_def callsAfter_def
    using chain n that unfolding evs_def by (rule changesApplied_explicit)
  have slots_i: "slots (tracker (changesApplied mgr i)) = slotsAfter i" if "i \<le> n" for i
    by (simp add: explicit [OF that])
  have claimed: "\<forall>i<n. (snd (evs ! i) = SERVER_ADDED \<longrightarrow>
                          changesApplied mgr (Suc i) = changesApplied mgr i)
           \<and> (snd (evs ! i) \<noteq> SERVER_ADDED \<longrightarrow>
                (\<exists>recovery.
                   map_of (slots (tracker mgr)) (serverId (fst (evs ! i))) = Some recovery
                 \<and> map_of (slotsAfter i) (serverId (fst (evs ! i))) = Some recovery
                 \<and> map_of (slots (tracker (changesApplied mgr i))) (serverId (fst (evs ! i)))
                     = Some recovery
                 \<and> changesApplied mgr (Suc i)
                     = Recovery_recoveryMasterFinished recovery (serverId (fst (evs ! i))) False
                         (changesApplied mgr i)))"
  proof (intro allI impI conjI)
    fix i assume "i < n" "snd (evs ! i) = SERVER_ADDED"
    with chain show "changesApplied mgr (Suc i) = changesApplied mgr i" by simp
  next
    fix i assume i: "i < n" and cr: "snd (evs ! i) \<noteq> SERVER_ADDED"
    with chain obtain recovery where
      slot: "map_of (slots (tracker (changesApplied mgr i))) (serverId (fst (evs ! i)))
               = Some recovery"
      and step: "changesApplied mgr (Suc i)
                = Recovery_recoveryMasterFinished recovery (serverId (fst (evs ! i))) False
                    (changesApplied mgr i)"
      by blast
    from slot i have at: "map_of (slotsAfter i) (serverId (fst (evs ! i))) = Some recovery"
      by (simp add: slots_i)
    then have "map_of (slots (tracker mgr)) (serverId (fst (evs ! i))) = Some recovery"
      unfolding slotsAfter_def by (rule map_of_slots_deleted)
    with at slot step
    show "\<exists>recovery.
            map_of (slots (tracker mgr)) (serverId (fst (evs ! i))) = Some recovery
          \<and> map_of (slotsAfter i) (serverId (fst (evs ! i))) = Some recovery
          \<and> map_of (slots (tracker (changesApplied mgr i))) (serverId (fst (evs ! i)))
              = Some recovery
          \<and> changesApplied mgr (Suc i)
              = Recovery_recoveryMasterFinished recovery (serverId (fst (evs ! i))) False
                  (changesApplied mgr i)"
      by blast
  qed
  have unclaimed: "n < length evs \<longrightarrow>
          snd (evs ! n) \<noteq> SERVER_ADDED
        \<and> map_of (slotsAfter n) (serverId (fst (evs ! n))) = None
        \<and> map_of (slots (tracker (changesApplied mgr n))) (serverId (fst (evs ! n))) = None"
    using stop by (simp add: slots_i)
  have final': "ApplyTrackerChangesTask_performTask mgr
        = mgr\<lparr>tracker := (tracker mgr)\<lparr>changes := drop (Suc n) evs, slots := slotsAfter n\<rparr>,
               trace := trace mgr @ callsAfter n\<rparr>"
    by (subst final) (simp add: explicit [OF order_refl])
  from n explicit claimed unclaimed final' final
    ApplyTrackerChanges_frame [of mgr] ApplyTrackerChanges_others_aux [OF refl, of mgr]
  show ?thesis by blast
qed

theorem ApplyTrackerChanges_drains_to_first_unclaimed_witness:
  "ApplyTrackerChangesTask_performTask example_mgr_tracker
     = example_mgr\<lparr>tracker :=
         \<lparr>changes = [(\<lparr>serverId = 12\<rparr>, SERVER_REMOVED), (\<lparr>serverId = 15\<rparr>, SERVER_CRASHED)],
          slots = [(15, example_recD)]\<rparr>,
        trace := [Call_recoveryMasterFinished example_recA 12 False,
                  Call_recoveryMasterFinished example_recC 14 False]\<rparr>"
proof -
  have "ApplyTrackerChangesTask_performTask example_mgr_tracker
     = example_mgr\<lparr>tracker :=
         \<lparr>changes = [(\<lparr>serverId = 12\<rparr>, SERVER_REMOVED), (\<lparr>serverId = 15\<rparr>, SERVER_CRASHED)],
          slots = [(15, example_recD)]\<rparr>,
        trace := [Call_recoveryMasterFinished example_recA 12 False,
                  Call_recoveryMasterFinished example_recC 14 False]\<rparr>"
    by code_simp
  with ApplyTrackerChanges_drains_to_first_unclaimed [of example_mgr_tracker]
  show ?thesis by simp
qed

end
